theory Spec2Isabelle
  imports Complex_Main "HOL-Library.Multiset" "HOL-Library.List_Lexorder"
    "HOL-Library.Product_Lexorder"
begin

chapter \<open>The contest ingestion and aggregation core of dfsanalyzer\<close>

text \<open>
  A shallow embedding of \<^verbatim>\<open>core/util.py\<close>, \<^verbatim>\<open>core/ingest.py\<close> and
  \<^verbatim>\<open>core/aggregate.py\<close>. Conventions:

  \<^item> a Python \<^verbatim>\<open>str\<close> is the list of its code points (\<open>ustr\<close>); comparison of
    strings is the lexicographic order of code points, as in Python;
  \<^item> the Unicode character database behind \<^verbatim>\<open>unicodedata.normalize\<close>,
    \<^verbatim>\<open>str.isspace\<close>, \<^verbatim>\<open>str.upper\<close> and the regular expression classes
    \<^verbatim>\<open>\s\<close> and \<^verbatim>\<open>\d\<close> is a parameter (\<open>unicode_db\<close>) for the code points
    from 128 on; on ASCII the behaviour is written out;
  \<^item> Python and numpy floats are exact reals, except in the user-exposure table, where
    every floating-point operation is followed by the rounding \<open>binary64\<close> to the
    nearest double; a missing cell (NaN, \<^verbatim>\<open>pd.NA\<close>, \<^verbatim>\<open>None\<close>) is \<open>None\<close> or
    \<open>Missing\<close>;
  \<^item> a data frame is the list of its rows, each a record of the columns the code reads.
\<close>

section \<open>Strings\<close>

type_synonym ustr = "nat list"

definition ascii :: "string \<Rightarrow> ustr" where
  "ascii s = map of_char s"

record unicode_db =
  db_nfkd :: "ustr \<Rightarrow> ustr"
  db_space :: "nat \<Rightarrow> bool"
  db_decimal :: "nat \<Rightarrow> nat option"
  db_upper :: "nat \<Rightarrow> ustr"

text \<open>
  \<^verbatim>\<open>str.isspace\<close>, which is also what \<^verbatim>\<open>str.strip\<close>, \<^verbatim>\<open>str.split\<close> and the
  class \<^verbatim>\<open>\s\<close> of a \<^verbatim>\<open>str\<close> pattern test. The ASCII white space is TAB, LF, VT,
  FF, CR, the separators FS, GS, RS, US and the blank.
\<close>

definition ascii_space :: "nat \<Rightarrow> bool" where
  "ascii_space c = ((9 \<le> c \<and> c \<le> 13) \<or> (28 \<le> c \<and> c \<le> 32))"

definition isspace :: "unicode_db \<Rightarrow> nat \<Rightarrow> bool" where
  "isspace U c = (if c < 128 then ascii_space c else db_space U c)"

text \<open>The class \<^verbatim>\<open>\d\<close>: a decimal digit, with the value \<^verbatim>\<open>int\<close> reads it as.\<close>

definition decimal :: "unicode_db \<Rightarrow> nat \<Rightarrow> nat option" where
  "decimal U c =
     (if c < 128 then (if 48 \<le> c \<and> c \<le> 57 then Some (c - 48) else None)
      else db_decimal U c)"

definition isdigit :: "unicode_db \<Rightarrow> nat \<Rightarrow> bool" where
  "isdigit U c = (decimal U c \<noteq> None)"

text \<open>\<^verbatim>\<open>str.upper\<close> maps code point by code point; one code point may become several.\<close>

definition upper_char :: "unicode_db \<Rightarrow> nat \<Rightarrow> ustr" where
  "upper_char U c =
     (if c < 128 then [if 97 \<le> c \<and> c \<le> 122 then c - 32 else c] else db_upper U c)"

definition upper :: "unicode_db \<Rightarrow> ustr \<Rightarrow> ustr" where
  "upper U s = concat (map (upper_char U) s)"

text \<open>
  \<^verbatim>\<open>str.lower\<close> is only ever applied to the result of \<open>normalize_player_name\<close>,
  which is ASCII; on ASCII it is this map.
\<close>

definition lower :: "ustr \<Rightarrow> ustr" where
  "lower s = map (\<lambda>c. if 65 \<le> c \<and> c \<le> 90 then c + 32 else c) s"

definition strip :: "unicode_db \<Rightarrow> ustr \<Rightarrow> ustr" where
  "strip U s = rev (dropWhile (isspace U) (rev (dropWhile (isspace U) s)))"

text \<open>\<^verbatim>\<open>str.split()\<close> with no argument: the maximal runs of non-space code points.\<close>

function split :: "unicode_db \<Rightarrow> ustr \<Rightarrow> ustr list" where
  "split U s =
     (case dropWhile (isspace U) s of
        [] \<Rightarrow> []
      | c # cs \<Rightarrow>
          (c # takeWhile (\<lambda>x. \<not> isspace U x) cs) # split U (dropWhile (\<lambda>x. \<not> isspace U x) cs))"
  by pat_completeness auto
termination
proof (relation "measure (\<lambda>(U, s). length s)")
  show "wf (measure (\<lambda>(U, s). length s))" by simp
next
  fix U :: unicode_db and s :: ustr and c cs
  assume eq: "dropWhile (isspace U) s = c # cs"
  have "length (dropWhile (\<lambda>x. \<not> isspace U x) cs) \<le> length cs"
    by (rule length_dropWhile_le)
  moreover have "length (c # cs) \<le> length s"
    using length_dropWhile_le [of "isspace U" s] by (simp add: eq)
  ultimately show "((U, dropWhile (\<lambda>x. \<not> isspace U x) cs), (U, s)) \<in> measure (\<lambda>(U, s). length s)"
    by simp
qed

text \<open>\<^verbatim>\<open>str.replace("\n", " ")\<close>.\<close>

definition replace_newlines :: "ustr \<Rightarrow> ustr" where
  "replace_newlines s = map (\<lambda>c. if c = 10 then 32 else c) s"

text \<open>\<^verbatim>\<open>sep.join(parts)\<close>.\<close>

fun join :: "ustr \<Rightarrow> ustr list \<Rightarrow> ustr" where
  "join sep [] = []"
| "join sep [x] = x"
| "join sep (x # y # ys) = x @ sep @ join sep (y # ys)"

section \<open>Name normalizer (\<^verbatim>\<open>core/util.py\<close>)\<close>

text \<open>
  \<^verbatim>\<open>unicodedata.normalize("NFKD", name)\<close>: the identity on an ASCII string, the
  database's decomposition otherwise.
\<close>

definition nfkd :: "unicode_db \<Rightarrow> ustr \<Rightarrow> ustr" where
  "nfkd U s = (if list_all (\<lambda>c. c < 128) s then s else db_nfkd U s)"

text \<open>\<^verbatim>\<open>s.encode("ascii", "ignore").decode("ascii")\<close>.\<close>

definition encode_ascii_ignore :: "ustr \<Rightarrow> ustr" where
  "encode_ascii_ignore s = filter (\<lambda>c. c < 128) s"

text \<open>\<^verbatim>\<open>re.sub(r"\s+", " ", s)\<close>: every maximal run of white space becomes one blank.\<close>

function collapse_whitespace :: "unicode_db \<Rightarrow> ustr \<Rightarrow> ustr" where
  "collapse_whitespace U [] = []"
| "collapse_whitespace U (c # cs) =
     (if isspace U c then 32 # collapse_whitespace U (dropWhile (isspace U) cs)
      else c # collapse_whitespace U cs)"
  by pat_completeness auto
termination
  by (relation "measure (\<lambda>(U, s). length s)") (auto simp: less_Suc_eq_le length_dropWhile_le)

definition normalize_player_name :: "unicode_db \<Rightarrow> ustr option \<Rightarrow> ustr" where
  "normalize_player_name U name =
     (case name of
        None \<Rightarrow> []
      | Some s \<Rightarrow>
          if s = [] then []
          else collapse_whitespace U (strip U (encode_ascii_ignore (nfkd U s))))"

text \<open>\<^verbatim>\<open>_PUNCT_RE.sub("", s)\<close> with \<^verbatim>\<open>_PUNCT_RE = [^a-z0-9 ]+\<close>.\<close>

definition comparable_char :: "nat \<Rightarrow> bool" where
  "comparable_char c = ((97 \<le> c \<and> c \<le> 122) \<or> (48 \<le> c \<and> c \<le> 57) \<or> c = 32)"

definition comparable_name :: "unicode_db \<Rightarrow> ustr option \<Rightarrow> ustr" where
  "comparable_name U name = filter comparable_char (lower (normalize_player_name U name))"

text \<open>\<^verbatim>\<open>percentile_from_rank\<close>.\<close>

definition percentile_from_rank :: "int \<Rightarrow> int \<Rightarrow> real" where
  "percentile_from_rank rnk tot =
     (if tot \<le> 1 then 0
      else (real_of_int (max (rnk - 1) 0) / real_of_int (tot - 1)) * 100)"

section \<open>Entry name parser and lineup tokenizer (\<^verbatim>\<open>core/ingest.py\<close>)\<close>

text \<open>A cell of a data frame read from CSV: a string, a number, or missing (NaN).\<close>

datatype cell = Str ustr | Num real | Missing

subsection \<open>\<^verbatim>\<open>ENTRY_PATTERN\<close>\<close>

text \<open>
  \<^verbatim>\<open>^(?P<username>.+?)(?:\s*\((?P<used>\d+)(?:\s*/\s*(?P<max>\d+))?\))?$\<close>,
  matched by \<^verbatim>\<open>ENTRY_PATTERN.match\<close>. The matcher below follows the pattern from
  left to right in the order the backtracking engine tries the alternatives: the lazy
  \<^verbatim>\<open>.+?\<close> takes one code point (never a newline) and then one more at a time; after
  each, the optional parenthesised group is tried before it is skipped. Inside the group
  the greedy \<^verbatim>\<open>\s*\<close> and \<^verbatim>\<open>\d+\<close> take their maximal runs: what follows each is a
  parenthesis, a slash or a digit, which the run's class excludes (white space and decimal
  digits being disjoint classes), so giving back a code point never helps.
\<close>

record entry_match =
  m_username :: ustr
  m_used :: "ustr option"
  m_max :: "ustr option"

text \<open>\<^verbatim>\<open>$\<close>: the end of the string, or just before a newline that ends it.\<close>

definition at_dollar :: "ustr \<Rightarrow> bool" where
  "at_dollar t = (t = [] \<or> t = [10])"

text \<open>\<^verbatim>\<open>\)$\<close>\<close>

definition match_close :: "ustr \<Rightarrow> bool" where
  "match_close t = (case t of [] \<Rightarrow> False | c # t' \<Rightarrow> c = 41 \<and> at_dollar t')"

text \<open>\<^verbatim>\<open>(?:\s*/\s*(?P<max>\d+))?\)$\<close>, read after the digits of \<^verbatim>\<open>used\<close>.\<close>

definition match_max :: "unicode_db \<Rightarrow> ustr \<Rightarrow> ustr option option" where
  "match_max U t =
     (let with_max =
        (case dropWhile (isspace U) t of
           [] \<Rightarrow> None
         | c # t1 \<Rightarrow>
             if c = 47 then
               (let t2 = dropWhile (isspace U) t1;
                    ds = takeWhile (isdigit U) t2;
                    t3 = dropWhile (isdigit U) t2
                in if ds \<noteq> [] \<and> match_close t3 then Some ds else None)
             else None)
      in case with_max of
           Some ds \<Rightarrow> Some (Some ds)
         | None \<Rightarrow> if match_close t then Some None else None)"

text \<open>\<^verbatim>\<open>(?:\s*\((?P<used>\d+)(?:\s*/\s*(?P<max>\d+))?\))?$\<close>, read after the user name.\<close>

definition match_tail :: "unicode_db \<Rightarrow> ustr \<Rightarrow> (ustr option \<times> ustr option) option" where
  "match_tail U t =
     (let grp =
        (case dropWhile (isspace U) t of
           [] \<Rightarrow> None
         | c # t1 \<Rightarrow>
             if c = 40 then
               (let ds = takeWhile (isdigit U) t1;
                    t2 = dropWhile (isdigit U) t1
                in if ds = [] then None
                   else (case match_max U t2 of
                           None \<Rightarrow> None
                         | Some mx \<Rightarrow> Some (Some ds, mx)))
             else None)
      in case grp of
           Some g \<Rightarrow> Some g
         | None \<Rightarrow> if at_dollar t then Some (None, None) else None)"

text \<open>The lazy \<^verbatim>\<open>.+?\<close>: \<open>name\<close> is what it holds so far, \<open>rest\<close> what is left.\<close>

fun scan_username :: "unicode_db \<Rightarrow> ustr \<Rightarrow> ustr \<Rightarrow> entry_match option" where
  "scan_username U name [] =
     (case match_tail U [] of
        Some (used, mx) \<Rightarrow> Some \<lparr>m_username = name, m_used = used, m_max = mx\<rparr>
      | None \<Rightarrow> None)"
| "scan_username U name (c # cs) =
     (case match_tail U (c # cs) of
        Some (used, mx) \<Rightarrow> Some \<lparr>m_username = name, m_used = used, m_max = mx\<rparr>
      | None \<Rightarrow> if c = 10 then None else scan_username U (name @ [c]) cs)"

definition ENTRY_PATTERN_match :: "unicode_db \<Rightarrow> ustr \<Rightarrow> entry_match option" where
  "ENTRY_PATTERN_match U s =
     (case s of
        [] \<Rightarrow> None
      | c # cs \<Rightarrow> if c = 10 then None else scan_username U [c] cs)"

text \<open>
  \<^verbatim>\<open>int(digits)\<close> on a run of decimal digits. (Python integers are unbounded; the
  interpreter's limit on the length of a decimal string is not modelled.)
\<close>

definition int_of_digits :: "unicode_db \<Rightarrow> ustr \<Rightarrow> int" where
  "int_of_digits U ds =
     int (foldl (\<lambda>acc c. 10 * acc + (case decimal U c of Some d \<Rightarrow> d | None \<Rightarrow> 0)) 0 ds)"

subsection \<open>\<^verbatim>\<open>parse_entry_name\<close>\<close>

record entry_name =
  username :: ustr
  entries_used :: int
  entries_max :: int

definition parse_entry_name :: "unicode_db \<Rightarrow> cell \<Rightarrow> entry_name" where
  "parse_entry_name U v =
     (case v of
        Str s \<Rightarrow>
          (let v' = strip U s in
           case ENTRY_PATTERN_match U v' of
             None \<Rightarrow> \<lparr>username = v', entries_used = 1, entries_max = 1\<rparr>
           | Some m \<Rightarrow>
               (let used_int = (case m_used m of
                                  None \<Rightarrow> 1
                                | Some u \<Rightarrow> if u = [] then 1 else int_of_digits U u);
                    max_int = (case m_max m of
                                 None \<Rightarrow> max used_int 1
                               | Some x \<Rightarrow> if x = [] then max used_int 1 else int_of_digits U x)
                in \<lparr>username = strip U (m_username m), entries_used = used_int,
                     entries_max = max_int\<rparr>))
      | _ \<Rightarrow> \<lparr>username = [], entries_used = 1, entries_max = 1\<rparr>)"

subsection \<open>\<^verbatim>\<open>parse_lineup\<close>\<close>

definition LINEUP_SLOTS :: "ustr list" where
  "LINEUP_SLOTS = map ascii [''PG'', ''SG'', ''SF'', ''PF'', ''C'', ''G'', ''F'', ''UTIL'']"

definition LINEUP_SLOT_SET :: "ustr set" where
  "LINEUP_SLOT_SET = set LINEUP_SLOTS"

record lineup_state =
  results :: "(ustr \<times> ustr) list"
  current_slot :: "ustr option"
  current_tokens :: "ustr list"

text \<open>
  The block under \<^verbatim>\<open>if current_slot and current_tokens\<close>, which the loop body and
  the code after the loop share: it returns the new \<^verbatim>\<open>results\<close>.
\<close>

definition flush :: "unicode_db \<Rightarrow> lineup_state \<Rightarrow> (ustr \<times> ustr) list" where
  "flush U st =
     (case current_slot st of
        None \<Rightarrow> results st
      | Some slot \<Rightarrow>
          if slot \<noteq> [] \<and> current_tokens st \<noteq> [] then
            (let name = normalize_player_name U (Some (join [32] (current_tokens st)))
             in if name \<noteq> [] then results st @ [(slot, name)] else results st)
          else results st)"

definition lineup_step :: "unicode_db \<Rightarrow> lineup_state \<Rightarrow> ustr \<Rightarrow> lineup_state" where
  "lineup_step U st token =
     (let slot = upper U token in
      if slot \<in> LINEUP_SLOT_SET then
        \<lparr>results = flush U st, current_slot = Some slot, current_tokens = []\<rparr>
      else st\<lparr>current_tokens := current_tokens st @ [token]\<rparr>)"

fun lineup_loop :: "unicode_db \<Rightarrow> lineup_state \<Rightarrow> ustr list \<Rightarrow> lineup_state" where
  "lineup_loop U st [] = st"
| "lineup_loop U st (token # tokens) = lineup_loop U (lineup_step U st token) tokens"

definition lineup_start :: lineup_state where
  "lineup_start = \<lparr>results = [], current_slot = None, current_tokens = []\<rparr>"

definition parse_tokens :: "unicode_db \<Rightarrow> ustr list \<Rightarrow> (ustr \<times> ustr) list" where
  "parse_tokens U tokens = flush U (lineup_loop U lineup_start tokens)"

definition tokens_of :: "unicode_db \<Rightarrow> ustr \<Rightarrow> ustr list" where
  "tokens_of U s = split U (replace_newlines s)"

definition parse_lineup :: "unicode_db \<Rightarrow> cell \<Rightarrow> (ustr \<times> ustr) list" where
  "parse_lineup U v = (case v of Str s \<Rightarrow> parse_tokens U (tokens_of U s) | _ \<Rightarrow> [])"

section \<open>Contest ingestor (\<^verbatim>\<open>ingest_contest\<close>)\<close>

subsection \<open>The entry rows of the standings sheet\<close>

record standings_row =
  EntryId :: "int option"
  EntryName :: cell
  Lineup :: cell

record entry_raw =
  er_EntryId :: "int option"
  er_username :: ustr
  er_entries_used :: int
  er_entries_max :: int
  er_lineup_pairs :: "(ustr \<times> ustr) list"
  er_lineup_players :: "ustr list"
  er_lineup_slots :: "ustr list"
  er_canonical_lineup_key :: ustr
  er_dupe_count :: nat

text \<open>
  \<^verbatim>\<open>drop_duplicates(subset=["EntryId"])\<close>: the first row of every \<^verbatim>\<open>EntryId\<close> is
  kept; missing identifiers count as equal to each other.
\<close>

fun drop_duplicates :: "'k list \<Rightarrow> ('a \<Rightarrow> 'k) \<Rightarrow> 'a list \<Rightarrow> 'a list" where
  "drop_duplicates seen key [] = []"
| "drop_duplicates seen key (x # xs) =
     (if key x \<in> set seen then drop_duplicates seen key xs
      else x # drop_duplicates (key x # seen) key xs)"

text \<open>\<^verbatim>\<open>"|".join(sorted(players))\<close>\<close>

definition canonical_lineup_key :: "ustr list \<Rightarrow> ustr" where
  "canonical_lineup_key players = join (ascii ''|'') (sort players)"

text \<open>
  \<^verbatim>\<open>groupby("canonical_lineup_key")["EntryId"].transform("count")\<close>: one pass
  counts, per key, the rows whose \<^verbatim>\<open>EntryId\<close> is not missing (\<^verbatim>\<open>count\<close> leaves
  missing values out); every row then gets the count of its key.
\<close>

fun group_counts :: "entry_raw list \<Rightarrow> (ustr \<Rightarrow> nat) \<Rightarrow> (ustr \<Rightarrow> nat)" where
  "group_counts [] counts = counts"
| "group_counts (r # rs) counts =
     group_counts rs
       (if er_EntryId r \<noteq> None
        then counts(er_canonical_lineup_key r := Suc (counts (er_canonical_lineup_key r)))
        else counts)"

definition transform_count :: "entry_raw list \<Rightarrow> entry_raw list" where
  "transform_count rows =
     (let counts = group_counts rows (\<lambda>k. 0)
      in map (\<lambda>r. r\<lparr>er_dupe_count := counts (er_canonical_lineup_key r)\<rparr>) rows)"

definition entry_columns :: "unicode_db \<Rightarrow> standings_row \<Rightarrow> entry_raw" where
  "entry_columns U row =
     (let parsed = parse_entry_name U (EntryName row);
          pairs = parse_lineup U (Lineup row);
          lineup_players = map snd pairs
      in \<lparr>er_EntryId = EntryId row,
          er_username = username parsed,
          er_entries_used = entries_used parsed,
          er_entries_max = entries_max parsed,
          er_lineup_pairs = pairs,
          er_lineup_players = lineup_players,
          er_lineup_slots = map fst pairs,
          er_canonical_lineup_key = canonical_lineup_key lineup_players,
          er_dupe_count = 0\<rparr>)"

text \<open>Lines 92 to 110 of \<^verbatim>\<open>ingest_contest\<close>: the frame \<^verbatim>\<open>entries_raw\<close>.\<close>

definition entries_raw :: "unicode_db \<Rightarrow> standings_row list \<Rightarrow> entry_raw list" where
  "entries_raw U standings =
     transform_count
       (map (entry_columns U)
          (drop_duplicates [] EntryId (filter (\<lambda>row. Lineup row \<noteq> Missing) standings)))"

subsection \<open>The salary lookups\<close>

record salary_record =
  Name :: cell
  Salary :: "real option"
  TeamAbbrev :: "ustr option"

type_synonym salary_index = "ustr \<Rightarrow> salary_record option"

text \<open>
  The loop over \<^verbatim>\<open>salary_records\<close> that fills \<^verbatim>\<open>salary_lookup\<close> and
  \<^verbatim>\<open>salary_lookup_secondary\<close>; each assignment overwrites what the key held.
\<close>

fun salary_lookups ::
  "unicode_db \<Rightarrow> salary_record list \<Rightarrow> salary_index \<times> salary_index \<Rightarrow> salary_index \<times> salary_index"
where
  "salary_lookups U [] (lookup, secondary) = (lookup, secondary)"
| "salary_lookups U (rcd # rcds) (lookup, secondary) =
     (case Name rcd of
        Str name \<Rightarrow>
          salary_lookups U rcds
            (lookup(name \<mapsto> rcd), secondary(comparable_name U (Some name) \<mapsto> rcd))
      | _ \<Rightarrow> salary_lookups U rcds (lookup, secondary))"

definition salary_lookup :: "unicode_db \<Rightarrow> salary_record list \<Rightarrow> salary_index" where
  "salary_lookup U rcds = fst (salary_lookups U rcds (Map.empty, Map.empty))"

definition salary_lookup_secondary :: "unicode_db \<Rightarrow> salary_record list \<Rightarrow> salary_index" where
  "salary_lookup_secondary U rcds = snd (salary_lookups U rcds (Map.empty, Map.empty))"

text \<open>The join of a lineup player: the exact name first, the comparable name second.\<close>

definition match_player :: "unicode_db \<Rightarrow> salary_record list \<Rightarrow> ustr \<Rightarrow> salary_record option" where
  "match_player U rcds player =
     (case salary_lookup U rcds player of
        Some m \<Rightarrow> Some m
      | None \<Rightarrow> salary_lookup_secondary U rcds (comparable_name U (Some player)))"

section \<open>Aggregation engine (\<^verbatim>\<open>core/aggregate.py\<close>)\<close>

text \<open>
  The frames the aggregation reads. \<^verbatim>\<open>entry_id\<close> is a nullable integer column
  (\<^verbatim>\<open>Int64\<close>); ranks, points and percentiles are taken as present.
\<close>

record entry =
  entry_id :: "int option"
  entry_username :: ustr
  rank :: int
  points :: real
  percentile :: real
  lineup_players :: "ustr list"

record exploded_row =
  x_entry_id :: "int option"
  x_username :: ustr
  x_player :: ustr
  x_rank :: int
  x_points :: real
  x_percentile :: real

record field_player =
  fp_player :: ustr
  fp_field_pct :: real

text \<open>\<^verbatim>\<open>min\<close> and \<^verbatim>\<open>max\<close> of a list, which the callers never take of an empty one.\<close>

fun list_min :: "'a::linorder list \<Rightarrow> 'a" where
  "list_min (x # xs) = fold min xs x"

fun list_max :: "'a::linorder list \<Rightarrow> 'a" where
  "list_max (x # xs) = fold max xs x"

text \<open>\<^verbatim>\<open>float(statistics.median(ranks))\<close>\<close>

definition median :: "int list \<Rightarrow> real" where
  "median xs =
     (let s = sort xs; n = length s in
      if odd n then real_of_int (s ! (n div 2))
      else (real_of_int (s ! (n div 2 - 1)) + real_of_int (s ! (n div 2))) / 2)"

text \<open>\<^verbatim>\<open>nunique\<close>: the number of distinct values that are not missing.\<close>

definition nunique :: "'a option list \<Rightarrow> nat" where
  "nunique xs = length (remdups (filter (\<lambda>x. x \<noteq> None) xs))"

subsection \<open>\<^verbatim>\<open>enrich_with_percentiles\<close> and \<^verbatim>\<open>apply_percentile_filter\<close>\<close>

definition enrich_with_percentiles :: "entry list \<Rightarrow> entry list" where
  "enrich_with_percentiles entries =
     (let tot = int (length entries)
      in map (\<lambda>e. e\<lparr>percentile := percentile_from_rank (rank e) tot\<rparr>) entries)"

definition apply_percentile_filter :: "entry list \<Rightarrow> real option \<Rightarrow> int option \<Rightarrow> entry list" where
  "apply_percentile_filter entries p r =
     (let frame = entries;
          frame = (case p of None \<Rightarrow> frame | Some pv \<Rightarrow> filter (\<lambda>e. percentile e \<le> pv) frame);
          frame = (case r of None \<Rightarrow> frame | Some rv \<Rightarrow> filter (\<lambda>e. rank e \<le> rv) frame)
      in frame)"

text \<open>The predicate as the specification words it, to compare the filter with.\<close>

definition keep :: "real option \<Rightarrow> int option \<Rightarrow> entry \<Rightarrow> bool" where
  "keep p r e = ((percentile e \<le> the p \<or> p = None) \<and> (rank e \<le> the r \<or> r = None))"

subsection \<open>\<^verbatim>\<open>compute_user_exposure\<close>\<close>

record exposure_row =
  ue_username :: ustr
  ue_player :: ustr
  entry_count :: nat
  ue_best_rank :: int
  ue_max_points :: real
  ue_best_percentile :: real
  user_total_lineups :: "nat option"
  user_exposure_pct :: "real option"
  field_pct :: real
  delta_vs_field :: real

datatype py_error = KeyError | TypeError | InvalidIndexError

text \<open>
  \<^verbatim>\<open>entries.groupby("username")[["entry_id"]].nunique()\<close>, read through the left
  merge on \<^verbatim>\<open>username\<close>: missing (NaN) for a user name that no entry has.
\<close>

definition user_lineups :: "entry list \<Rightarrow> ustr \<Rightarrow> nat option" where
  "user_lineups entries u =
     (if u \<in> set (map entry_username entries)
      then Some (nunique (map entry_id (filter (\<lambda>e. entry_username e = u) entries)))
      else None)"

text \<open>
  \<^verbatim>\<open>exploded.groupby(["username", "player"]).agg(...)\<close>: one row per key, the keys in
  ascending order.
\<close>

definition exposure_keys :: "exploded_row list \<Rightarrow> (ustr \<times> ustr) list" where
  "exposure_keys exploded = sort (remdups (map (\<lambda>x. (x_username x, x_player x)) exploded))"

definition exposure_group :: "exploded_row list \<Rightarrow> ustr \<times> ustr \<Rightarrow> exploded_row list" where
  "exposure_group exploded k = filter (\<lambda>x. (x_username x, x_player x) = k) exploded"

text \<open>
  The rounding of a real number to the nearest double (IEEE 754 binary64, ties to the
  even significand): \<open>u\<close> is the distance of neighbouring doubles at the magnitude of
  \<open>x\<close>, with 53 significant bits. The quantities of this table are far from the largest
  and the smallest doubles, so overflow and subnormal numbers are left out.
\<close>

definition binary64 :: "real \<Rightarrow> real" where
  "binary64 x =
     (if x = 0 then 0
      else
        (let u = 2 powr (real_of_int \<lfloor>log 2 \<bar>x\<bar>\<rfloor> - 52);
             y = x / u;
             n = \<lfloor>y\<rfloor>
         in (if y - of_int n < 1 / 2 then of_int n
             else if 1 / 2 < y - of_int n then of_int n + 1
             else if even n then of_int n
             else of_int n + 1) * u))"

text \<open>
  One row of the result. The quotient of the two counts, its product with 100 and the
  difference are floating-point operations, each rounded. A total of 0 is replaced by
  \<^verbatim>\<open>pd.NA\<close>, which makes the quotient \<^verbatim>\<open>pd.NA\<close> (\<open>compute_user_exposure\<close> says what
  becomes of it); a total that is missing because no entry has the user name makes the
  quotient NaN. \<^verbatim>\<open>fillna(0.0)\<close> reads a missing percentage as 0 in the difference. The
  field percentage of a player the field table does not have is filled with 0.
\<close>

definition exposure_of ::
  "entry list \<Rightarrow> exploded_row list \<Rightarrow> field_player list \<Rightarrow> ustr \<times> ustr \<Rightarrow> exposure_row" where
  "exposure_of entries exploded field_players k =
     (let grp = exposure_group exploded k;
          cnt = nunique (map x_entry_id grp);
          tot = user_lineups entries (fst k);
          pct = (case tot of
                   None \<Rightarrow> None
                 | Some n \<Rightarrow>
                     if n = 0 then None
                     else Some (binary64 (binary64 (real cnt / real n) * 100)));
          fpct = (case map_of (map (\<lambda>f. (fp_player f, fp_field_pct f)) field_players) (snd k) of
                    None \<Rightarrow> 0
                  | Some v \<Rightarrow> v)
      in \<lparr>ue_username = fst k, ue_player = snd k, entry_count = cnt,
          ue_best_rank = list_min (map x_rank grp),
          ue_max_points = list_max (map x_points grp),
          ue_best_percentile = list_min (map x_percentile grp),
          user_total_lineups = tot,
          user_exposure_pct = pct,
          field_pct = fpct,
          delta_vs_field = binary64 ((case pct of None \<Rightarrow> 0 | Some v \<Rightarrow> v) - fpct)\<rparr>)"

text \<open>
  The table, or the exception the source raises, in the order of the statements.
  \<open>exploded\<close> is the list of rows from which \<^verbatim>\<open>ingest_contest\<close> builds the exploded
  frame with \<^verbatim>\<open>pd.DataFrame(exploded_rows)\<close>.

  \<^item> \<^verbatim>\<open>KeyError\<close> from \<^verbatim>\<open>exploded.groupby\<close> when there is no exploded row: the frame
    built from an empty list has no column \<^verbatim>\<open>username\<close>;
  \<^item> \<^verbatim>\<open>TypeError\<close> from \<^verbatim>\<open>astype(float)\<close> when a user of the exploded frame has a
    total of 0 (entries, but none with an identifier), the quotient of that row being
    \<^verbatim>\<open>pd.NA\<close>;
  \<^item> \<^verbatim>\<open>InvalidIndexError\<close> from \<^verbatim>\<open>Series.map\<close> when a player labels two rows of the
    field table.
\<close>

definition compute_user_exposure ::
  "entry list \<Rightarrow> exploded_row list \<Rightarrow> field_player list \<Rightarrow> py_error + exposure_row list" where
  "compute_user_exposure entries exploded field_players =
     (if exploded = [] then Inl KeyError
      else if list_ex (\<lambda>k. user_lineups entries (fst k) = Some 0) (exposure_keys exploded)
      then Inl TypeError
      else if \<not> distinct (map fp_player field_players) then Inl InvalidIndexError
      else Inr (sort_key (\<lambda>r. (ue_username r, ue_player r))
                  (map (exposure_of entries exploded field_players) (exposure_keys exploded))))"

subsection \<open>\<^verbatim>\<open>_combo_records\<close>\<close>

text \<open>\<^verbatim>\<open>itertools.combinations(xs, r)\<close>, in the order it yields them.\<close>

fun combinations :: "'a list \<Rightarrow> nat \<Rightarrow> 'a list list" where
  "combinations xs 0 = [[]]"
| "combinations [] (Suc r) = []"
| "combinations (x # xs) (Suc r) = map ((#) x) (combinations xs r) @ combinations xs (Suc r)"

text \<open>\<^verbatim>\<open>dict.fromkeys(players)\<close>: the keys in the order of their first occurrence.\<close>

fun fromkeys :: "'a list \<Rightarrow> 'a list \<Rightarrow> 'a list" where
  "fromkeys keys [] = keys"
| "fromkeys keys (x # xs) = fromkeys (if x \<in> set keys then keys else keys @ [x]) xs"

record bucket =
  b_entry_ids :: "int option list"
  b_ranks :: "int list"
  b_percentiles :: "real list"
  b_points :: "real list"

text \<open>
  The \<^verbatim>\<open>defaultdict\<close> \<^verbatim>\<open>records\<close>: its items in insertion order.
  \<open>bucket_append\<close> is the body of the inner loop, \<^verbatim>\<open>bucket = records[combo]\<close>
  (a new key gets an empty bucket at the end) and the four appends.
\<close>

type_synonym combo_dict = "(ustr list \<times> bucket) list"

definition bucket_add :: "entry \<Rightarrow> bucket \<Rightarrow> bucket" where
  "bucket_add row b =
     \<lparr>b_entry_ids = b_entry_ids b @ [entry_id row],
      b_ranks = b_ranks b @ [rank row],
      b_percentiles = b_percentiles b @ [percentile row],
      b_points = b_points b @ [points row]\<rparr>"

definition empty_bucket :: bucket where
  "empty_bucket = \<lparr>b_entry_ids = [], b_ranks = [], b_percentiles = [], b_points = []\<rparr>"

fun bucket_append :: "entry \<Rightarrow> ustr list \<Rightarrow> combo_dict \<Rightarrow> combo_dict" where
  "bucket_append row combo [] = [(combo, bucket_add row empty_bucket)]"
| "bucket_append row combo ((k, b) # d) =
     (if k = combo then (k, bucket_add row b) # d else (k, b) # bucket_append row combo d)"

text \<open>The combinations one row yields: none when the row is skipped.\<close>

definition row_combos :: "nat \<Rightarrow> entry \<Rightarrow> ustr list list" where
  "row_combos sz row =
     (let players = lineup_players row in
      if players = [] \<or> length players < sz then []
      else combinations (sort (fromkeys [] players)) sz)"

definition combo_row :: "nat \<Rightarrow> entry \<Rightarrow> combo_dict \<Rightarrow> combo_dict" where
  "combo_row sz row d = fold (bucket_append row) (row_combos sz row) d"

definition combo_dict_of :: "entry list \<Rightarrow> nat \<Rightarrow> combo_dict" where
  "combo_dict_of entries sz = fold (combo_row sz) entries []"

record combo_record =
  combo :: ustr
  players :: "ustr list"
  combo_size :: nat
  frequency :: nat
  best_rank :: int
  best_percentile :: real
  median_rank :: real
  max_points :: real
  entry_ids :: "int option list"
  count_in_current_percentile :: nat

definition combo_dict_to_records :: "combo_dict \<Rightarrow> nat \<Rightarrow> combo_record list" where
  "combo_dict_to_records d sz =
     map (\<lambda>(cmb, payload).
            \<lparr>combo = join (ascii '' | '') cmb,
             players = cmb,
             combo_size = sz,
             frequency = length (b_entry_ids payload),
             best_rank = list_min (b_ranks payload),
             best_percentile = list_min (b_percentiles payload),
             median_rank = median (b_ranks payload),
             max_points = list_max (b_points payload),
             entry_ids = b_entry_ids payload,
             count_in_current_percentile = length (b_entry_ids payload)\<rparr>)
         (filter (\<lambda>(cmb, payload). b_entry_ids payload \<noteq> []) d)"

definition combo_records :: "entry list \<Rightarrow> nat \<Rightarrow> combo_record list" where
  "combo_records entries sz = combo_dict_to_records (combo_dict_of entries sz) sz"

section \<open>A fragment of the Unicode character database\<close>

text \<open>
  The decompositions of e-acute, u-acute, n-tilde and the no-break space, the white
  space beyond ASCII, the Arabic-Indic digits, and the upper case of the long s and the
  dotless i: enough of the database to run the definitions on.
\<close>

definition sample_decomposition :: "nat \<Rightarrow> ustr" where
  "sample_decomposition c =
     (if c = 233 then [101, 769]
      else if c = 250 then [117, 769]
      else if c = 241 then [110, 771]
      else if c = 160 then [32]
      else [c])"

definition sample_db :: unicode_db where
  "sample_db =
     \<lparr>db_nfkd = (\<lambda>s. concat (map sample_decomposition s)),
      db_space = (\<lambda>c. c = 133 \<or> c = 160 \<or> c = 5760 \<or> (8192 \<le> c \<and> c \<le> 8202) \<or> c = 8232
                       \<or> c = 8233 \<or> c = 8239 \<or> c = 8287 \<or> c = 12288),
      db_decimal = (\<lambda>c. if 1632 \<le> c \<and> c \<le> 1641 then Some (c - 1632) else None),
      db_upper = (\<lambda>c. if c = 383 then [83] else if c = 305 then [73] else [c])\<rparr>"

section \<open>Sample data\<close>

text \<open>Rows and frames to run the definitions on.\<close>

definition sample_row :: "int \<Rightarrow> string \<Rightarrow> string \<Rightarrow> standings_row" where
  "sample_row i name lineup =
     \<lparr>EntryId = Some i, EntryName = Str (ascii name), Lineup = Str (ascii lineup)\<rparr>"

definition swapped_slots :: "standings_row list" where
  "swapped_slots = [sample_row 1 ''ann (1/2)'' ''PG A SG B'', sample_row 2 ''bob'' ''PG B SG A'']"

definition repeated_player :: "standings_row list" where
  "repeated_player = [sample_row 1 ''ann'' ''PG A SG A SF B'', sample_row 2 ''bob'' ''PG A SG B'']"

definition sample_salary :: "string \<Rightarrow> real \<Rightarrow> salary_record" where
  "sample_salary name s = \<lparr>Name = Str (ascii name), Salary = Some s, TeamAbbrev = None\<rparr>"

definition sample_entry :: "int \<Rightarrow> string \<Rightarrow> int \<Rightarrow> real \<Rightarrow> string list \<Rightarrow> entry" where
  "sample_entry i user r p names =
     \<lparr>entry_id = Some i, entry_username = ascii user, rank = r, points = 0, percentile = p,
      lineup_players = map ascii names\<rparr>"

definition three_entries :: "entry list" where
  "three_entries =
     [sample_entry 1 ''ann'' 1 0 [''P'', ''Q''],
      sample_entry 2 ''ann'' 2 50 [''P'', ''R''],
      sample_entry 3 ''ann'' 3 100 [''Q'', ''R'']]"


definition entry_without_id :: "entry list" where
  "entry_without_id = [(sample_entry 0 ''ann'' 1 0 [''P''])\<lparr>entry_id := None\<rparr>]"

section \<open>Auxiliary notions for the statements\<close>

text \<open>The key under which the loop files a salary row in the secondary index, if any.\<close>

definition secondary_key :: "unicode_db \<Rightarrow> salary_record \<Rightarrow> ustr option" where
  "secondary_key U rcd =
     (case Name rcd of Str name \<Rightarrow> Some (comparable_name U (Some name)) | _ \<Rightarrow> None)"

text \<open>
  The name \<^verbatim>\<open>Jose Nunez\<close> spelt with the precomposed letters e-acute (U+00E9),
  u-acute (U+00FA) and n-tilde (U+00F1), and its compatibility decomposition (NFKD), in
  which each accented letter is the base letter followed by a combining mark (U+0301,
  U+0303).
\<close>

definition jose_nunez :: ustr where
  "jose_nunez = [74, 111, 115, 233, 32, 78, 250, 241, 101, 122]"

definition jose_nunez_nfkd :: ustr where
  "jose_nunez_nfkd = [74, 111, 115, 101, 769, 32, 78, 117, 769, 110, 771, 101, 122]"

text \<open>An entry row whose \<^verbatim>\<open>EntryId\<close> cell is empty, after a complete one of the same user.\<close>

definition missing_id :: "standings_row list" where
  "missing_id =
     [sample_row 1 ''ann'' ''PG A'',
      \<lparr>EntryId = None, EntryName = Str (ascii ''ann''), Lineup = Str (ascii ''PG B'')\<rparr>]"

text \<open>The exploded frame of a list of entries (one row per lineup player), and a field table.\<close>

definition sample_exploded :: "entry list \<Rightarrow> exploded_row list" where
  "sample_exploded entries =
     concat (map (\<lambda>e. map (\<lambda>p. \<lparr>x_entry_id = entry_id e, x_username = entry_username e,
                                  x_player = p, x_rank = rank e, x_points = points e,
                                  x_percentile = percentile e\<rparr>) (lineup_players e)) entries)"

definition sample_field :: "field_player list" where
  "sample_field = [\<lparr>fp_player = ascii ''Q'', fp_field_pct = 40\<rparr>]"

text \<open>The entry identifiers filed under a combo key of the dictionary.\<close>

definition ids_of :: "combo_dict \<Rightarrow> ustr list \<Rightarrow> int option list" where
  "ids_of d c = (case map_of d c of None \<Rightarrow> [] | Some b \<Rightarrow> b_entry_ids b)"

text \<open>Two entries, the first with a repeated player.\<close>

definition combo_entries :: "entry list" where
  "combo_entries =
     [sample_entry 1 ''ann'' 1 0 [''A'', ''B'', ''A'', ''D''],
      sample_entry 2 ''bob'' 2 100 [''B'', ''A'']]"

text \<open>
  Vocabulary for the forms of an entry label: a run of white space (possibly empty), a
  non-empty run of decimal digits, and a name as \<^verbatim>\<open>.+?\<close> can hold one once the label
  is stripped: not empty, without a newline, with no white space at either end.
\<close>

definition spaces :: "unicode_db \<Rightarrow> ustr \<Rightarrow> bool" where
  "spaces U w = (\<forall>c \<in> set w. isspace U c)"

definition digits :: "unicode_db \<Rightarrow> ustr \<Rightarrow> bool" where
  "digits U ds = (ds \<noteq> [] \<and> (\<forall>c \<in> set ds. isdigit U c))"

definition plain_name :: "unicode_db \<Rightarrow> ustr \<Rightarrow> bool" where
  "plain_name U name =
     (name \<noteq> [] \<and> 10 \<notin> set name \<and> \<not> isspace U (hd name) \<and> \<not> isspace U (last name))"

text \<open>No code point is both white space and a decimal digit (so it is in Unicode).\<close>

definition classes_disjoint :: "unicode_db \<Rightarrow> bool" where
  "classes_disjoint U = (\<forall>c. isdigit U c \<longrightarrow> \<not> isspace U c)"

chapter \<open>Properties\<close>

section \<open>Percentile from rank\<close>

lemma percentile_quotient:
  "\<not> tot \<le> 1 \<Longrightarrow>
     percentile_from_rank r tot = (real_of_int (max (r - 1) 0) / real_of_int (tot - 1)) * 100"
  unfolding percentile_from_rank_def by (simp only: if_False)

text \<open>
  C2 (amended). \<open>percentile_from_rank rank total\<close> is 0 when \<open>total \<le> 1\<close> and
  \<open>max (rank - 1) 0 / (total - 1) * 100\<close> otherwise. For every rank and total it is at
  least 0 and non-decreasing in the rank, and it is 0 when there is exactly one entry. It
  is at most 100 when the rank does not exceed the total; the function does not clamp a
  larger rank.
\<close>

theorem percentile_from_rank_amended:
  "(tot \<le> 1 \<longrightarrow> percentile_from_rank r tot = 0)
   \<and> (1 < tot \<longrightarrow>
        percentile_from_rank r tot = real_of_int (max (r - 1) 0) / real_of_int (tot - 1) * 100)
   \<and> 0 \<le> percentile_from_rank r tot
   \<and> (r \<le> tot \<longrightarrow> percentile_from_rank r tot \<le> 100)
   \<and> (r \<le> r' \<longrightarrow> percentile_from_rank r tot \<le> percentile_from_rank r' tot)
   \<and> percentile_from_rank r 1 = 0"
proof -
  have small: "percentile_from_rank x tot = 0" if "tot \<le> 1" for x
    using that by (simp add: percentile_from_rank_def)
  have nonneg: "0 \<le> percentile_from_rank r tot"
    by (simp add: percentile_from_rank_def)
  have upper: "percentile_from_rank r tot \<le> 100" if "r \<le> tot"
  proof (cases "tot \<le> 1")
    case True
    then show ?thesis by (simp add: small)
  next
    case False
    then have pos: "0 < real_of_int (tot - 1)" by simp
    have "real_of_int (max (r - 1) 0) \<le> real_of_int (tot - 1)"
      using that False by simp
    then have "real_of_int (max (r - 1) 0) / real_of_int (tot - 1) \<le> 1"
      using pos by (simp only: divide_le_eq_1_pos)
    then have "(real_of_int (max (r - 1) 0) / real_of_int (tot - 1)) * 100 \<le> 1 * 100"
      by (intro mult_right_mono) simp_all
    then show ?thesis by (simp only: percentile_quotient [OF False] mult_1)
  qed
  have mono: "percentile_from_rank r tot \<le> percentile_from_rank r' tot" if "r \<le> r'"
  proof (cases "tot \<le> 1")
    case True
    then show ?thesis by (simp add: small)
  next
    case False
    then have pos: "0 \<le> real_of_int (tot - 1)" by simp
    have "real_of_int (max (r - 1) 0) \<le> real_of_int (max (r' - 1) 0)"
      using that by simp
    then have "real_of_int (max (r - 1) 0) / real_of_int (tot - 1)
                 \<le> real_of_int (max (r' - 1) 0) / real_of_int (tot - 1)"
      using pos by (rule divide_right_mono)
    then have "(real_of_int (max (r - 1) 0) / real_of_int (tot - 1)) * 100
                 \<le> (real_of_int (max (r' - 1) 0) / real_of_int (tot - 1)) * 100"
      by (intro mult_right_mono) simp_all
    then show ?thesis by (simp only: percentile_quotient [OF False])
  qed
  have formula: "percentile_from_rank r tot
                   = real_of_int (max (r - 1) 0) / real_of_int (tot - 1) * 100" if "1 < tot"
    using that by (intro percentile_quotient) simp
  show ?thesis
    using small [of r] nonneg upper mono formula by (simp add: percentile_from_rank_def)
qed

text \<open>Rank 2 of 3 entries, next to rank 3, and rank 7 of a single entry.\<close>

theorem percentile_from_rank_amended_witness:
  "percentile_from_rank 2 3 = 50
   \<and> 0 \<le> percentile_from_rank 2 3
   \<and> percentile_from_rank 2 3 \<le> 100
   \<and> percentile_from_rank 2 3 \<le> percentile_from_rank 3 3
   \<and> percentile_from_rank 7 1 = 0"
  using percentile_from_rank_amended [of 3 2 3] percentile_from_rank_amended [of 1 7 7]
  by (simp add: percentile_from_rank_def)

text \<open>
  The bound of 100 fails for a rank above the total: rank 5 among 3 entries, as when two
  of five standings rows carry no lineup and are left out of the entries.
\<close>

theorem percentile_above_100_counterexample:
  "percentile_from_rank 5 3 = 200 \<and> \<not> percentile_from_rank 5 3 \<le> 100"
  by (simp add: percentile_from_rank_def)

section \<open>Percentile and rank filter\<close>

text \<open>
  C6. The filter keeps an entry if and only if (its percentile is at most \<open>P\<close> or \<open>P\<close> is
  unset) and (its rank is at most \<open>R\<close> or \<open>R\<close> is unset): the result is the frame
  filtered by \<open>keep\<close>, in the frame's order, and both bounds are inclusive.
\<close>

theorem apply_percentile_filter_keep:
  "apply_percentile_filter entries p r = filter (keep p r) entries
   \<and> (e \<in> set (apply_percentile_filter entries p r) \<longleftrightarrow> e \<in> set entries \<and> keep p r e)"
proof -
  have k: "keep p' r' =
      (\<lambda>e. (percentile e \<le> the p' \<or> p' = None) \<and> (rank e \<le> the r' \<or> r' = None))"
    for p' r'
    by (simp add: fun_eq_iff keep_def)
  have "apply_percentile_filter entries p r = filter (keep p r) entries"
    by (cases p; cases r) (simp_all add: apply_percentile_filter_def k conj_commute)
  then show ?thesis by simp
qed

text \<open>Percentile bound 50 alone, and with rank bound 1; an entry on a bound is kept.\<close>

theorem apply_percentile_filter_keep_witness:
  "apply_percentile_filter three_entries (Some 50) None = take 2 three_entries
   \<and> apply_percentile_filter three_entries (Some 50) (Some 1) = take 1 three_entries
   \<and> apply_percentile_filter three_entries None None = three_entries"
  using apply_percentile_filter_keep [of three_entries "Some 50" None]
    apply_percentile_filter_keep [of three_entries "Some 50" "Some 1"]
    apply_percentile_filter_keep [of three_entries None None]
  by (simp add: keep_def three_entries_def sample_entry_def)

section \<open>Canonical lineup key\<close>

lemma drop_duplicates_subset: "set (drop_duplicates seen key xs) \<subseteq> set xs"
  by (induction xs arbitrary: seen) auto

lemma transform_count_rows:
  "e \<in> set (transform_count rows) \<Longrightarrow> \<exists>r \<in> set rows. \<exists>n. e = r\<lparr>er_dupe_count := n\<rparr>"
  by (auto simp: transform_count_def Let_def)

lemma entries_raw_rows:
  assumes "e \<in> set (entries_raw U standings)"
  shows "\<exists>row \<in> set standings. \<exists>n.
           Lineup row \<noteq> Missing \<and> e = (entry_columns U row)\<lparr>er_dupe_count := n\<rparr>"
proof -
  from assms obtain r n where r: "r \<in> set (map (entry_columns U)
      (drop_duplicates [] EntryId (filter (\<lambda>row. Lineup row \<noteq> Missing) standings)))"
    and e: "e = r\<lparr>er_dupe_count := n\<rparr>"
    unfolding entries_raw_def by (blast dest: transform_count_rows)
  from r obtain row where
    row: "row \<in> set (drop_duplicates [] EntryId
                       (filter (\<lambda>row. Lineup row \<noteq> Missing) standings))"
    and rr: "r = entry_columns U row"
    by auto
  from row have "row \<in> set (filter (\<lambda>row. Lineup row \<noteq> Missing) standings)"
    by (rule subsetD [OF drop_duplicates_subset])
  with e rr show ?thesis by auto
qed

lemma canonical_lineup_key_mset:
  assumes "mset ps = mset qs"
  shows "canonical_lineup_key ps = canonical_lineup_key qs"
proof -
  from assms have "sort ps = sort qs"
    by (intro properties_for_sort) simp_all
  then show ?thesis by (simp add: canonical_lineup_key_def)
qed

text \<open>
  C1 (amended). For every entry, \<open>canonical_lineup_key\<close> is the entry's parsed player
  names sorted and joined by \<^verbatim>\<open>|\<close>, repeated names kept: any two lineups with the same
  multiset of player names, whatever the slots, receive the same key.
\<close>

theorem canonical_lineup_key_amended:
  assumes "e1 \<in> set (entries_raw U standings)" and "e2 \<in> set (entries_raw U standings)"
  shows "er_lineup_players e1 = map snd (er_lineup_pairs e1)
     \<and> er_canonical_lineup_key e1 = join (ascii ''|'') (sort (er_lineup_players e1))
     \<and> (mset (er_lineup_players e1) = mset (er_lineup_players e2)
          \<longrightarrow> er_canonical_lineup_key e1 = er_canonical_lineup_key e2)"
proof -
  have cols: "er_lineup_players e = map snd (er_lineup_pairs e)
       \<and> er_canonical_lineup_key e = canonical_lineup_key (er_lineup_players e)"
    if "e \<in> set (entries_raw U standings)" for e
    using entries_raw_rows [OF that] by (auto simp: entry_columns_def Let_def)
  have "er_canonical_lineup_key e1 = er_canonical_lineup_key e2"
    if "mset (er_lineup_players e1) = mset (er_lineup_players e2)"
    using cols [OF assms(1)] cols [OF assms(2)] canonical_lineup_key_mset [OF that] by simp
  then show ?thesis
    using cols [OF assms(1)] by (simp add: canonical_lineup_key_def)
qed

lemma entries_raw_swapped_slots:
  "entries_raw sample_db swapped_slots =
     [\<lparr>er_EntryId = Some 1, er_username = ascii ''ann'', er_entries_used = 1,
        er_entries_max = 2,
        er_lineup_pairs = [(ascii ''PG'', ascii ''A''), (ascii ''SG'', ascii ''B'')],
        er_lineup_players = [ascii ''A'', ascii ''B''],
        er_lineup_slots = [ascii ''PG'', ascii ''SG''],
        er_canonical_lineup_key = ascii ''A|B'', er_dupe_count = 2\<rparr>,
      \<lparr>er_EntryId = Some 2, er_username = ascii ''bob'', er_entries_used = 1,
        er_entries_max = 1,
        er_lineup_pairs = [(ascii ''PG'', ascii ''B''), (ascii ''SG'', ascii ''A'')],
        er_lineup_players = [ascii ''B'', ascii ''A''],
        er_lineup_slots = [ascii ''PG'', ascii ''SG''],
        er_canonical_lineup_key = ascii ''A|B'', er_dupe_count = 2\<rparr>]"
  by code_simp

text \<open>Two entries with the players A and B in swapped slots.\<close>

theorem canonical_lineup_key_amended_witness:
  "entries_raw sample_db swapped_slots ! 0 \<in> set (entries_raw sample_db swapped_slots)
   \<and> entries_raw sample_db swapped_slots ! 1 \<in> set (entries_raw sample_db swapped_slots)
   \<and> mset (er_lineup_players (entries_raw sample_db swapped_slots ! 0))
       = mset (er_lineup_players (entries_raw sample_db swapped_slots ! 1))
   \<and> er_lineup_pairs (entries_raw sample_db swapped_slots ! 0)
       \<noteq> er_lineup_pairs (entries_raw sample_db swapped_slots ! 1)
   \<and> er_canonical_lineup_key (entries_raw sample_db swapped_slots ! 0) = ascii ''A|B''
   \<and> er_canonical_lineup_key (entries_raw sample_db swapped_slots ! 1) = ascii ''A|B''"
proof -
  have m0: "entries_raw sample_db swapped_slots ! 0 \<in> set (entries_raw sample_db swapped_slots)"
    and m1: "entries_raw sample_db swapped_slots ! 1 \<in> set (entries_raw sample_db swapped_slots)"
    by (simp_all add: entries_raw_swapped_slots)
  show ?thesis
    using canonical_lineup_key_amended [OF m0 m1] m0 m1
    by (simp add: entries_raw_swapped_slots ascii_def)
qed

text \<open>
  A lineup that names player A in two slots and B in one has the same player set as the
  lineup of A and B, and another key: the repeated name is not collapsed.
\<close>

theorem canonical_lineup_key_repeat_counterexample:
  "map er_lineup_players (entries_raw sample_db repeated_player)
     = [[ascii ''A'', ascii ''A'', ascii ''B''], [ascii ''A'', ascii ''B'']]
   \<and> set [ascii ''A'', ascii ''A'', ascii ''B''] = set [ascii ''A'', ascii ''B'']
   \<and> map er_canonical_lineup_key (entries_raw sample_db repeated_player)
     = [ascii ''A|A|B'', ascii ''A|B'']
   \<and> ascii ''A|A|B'' \<noteq> ascii ''A|B''
   \<and> join (ascii ''|'') (remdups (sort [ascii ''A'', ascii ''A'', ascii ''B''])) = ascii ''A|B''"
proof -
  have "map er_lineup_players (entries_raw sample_db repeated_player)
     = [[ascii ''A'', ascii ''A'', ascii ''B''], [ascii ''A'', ascii ''B'']]"
    by code_simp
  moreover have "map er_canonical_lineup_key (entries_raw sample_db repeated_player)
     = [ascii ''A|A|B'', ascii ''A|B'']"
    by code_simp
  moreover have "join (ascii ''|'') (remdups (sort [ascii ''A'', ascii ''A'', ascii ''B'']))
     = ascii ''A|B''"
    by code_simp
  moreover have "ascii ''A|A|B'' \<noteq> ascii ''A|B''"
    by (simp add: ascii_def)
  ultimately show ?thesis by simp
qed

section \<open>Secondary salary index\<close>

lemma salary_lookups_secondary:
  "snd (salary_lookups U rcds (lookup, secondary)) k =
     (case filter (\<lambda>rcd. secondary_key U rcd = Some k) (rev rcds) of
        [] \<Rightarrow> secondary k
      | rcd # _ \<Rightarrow> Some rcd)"
proof (induction rcds arbitrary: lookup secondary)
  case Nil
  then show ?case by simp
next
  case (Cons rcd rcds)
  show ?case
    by (cases "Name rcd") (simp_all add: Cons.IH secondary_key_def split: list.splits)
qed

text \<open>
  C3 (amended). When several salary rows map to the same comparable key, the secondary
  index keeps the row of the last such name encountered (last wins): the index returns a
  row for its comparable key whenever no later row of the sheet has that key, whatever
  rows came before it.
\<close>

theorem salary_lookup_secondary_last_wins:
  assumes "Name rcd = Str name"
    and "\<forall>later \<in> set rcds'. secondary_key U later \<noteq> Some (comparable_name U (Some name))"
  shows "salary_lookup_secondary U (rcds @ rcd # rcds') (comparable_name U (Some name)) = Some rcd"
proof -
  have "filter (\<lambda>x. secondary_key U x = Some (comparable_name U (Some name))) (rev rcds') = []"
    using assms(2) by (simp add: filter_empty_conv)
  moreover have "secondary_key U rcd = Some (comparable_name U (Some name))"
    using assms(1) by (simp add: secondary_key_def)
  ultimately show ?thesis
    by (simp add: salary_lookup_secondary_def salary_lookups_secondary)
qed

lemma comparable_oneal:
  "comparable_name sample_db (Some (ascii ''O'Neal Jr.'')) = ascii ''oneal jr''"
  "comparable_name sample_db (Some (ascii ''ONeal Jr'')) = ascii ''oneal jr''"
  "comparable_name sample_db (Some (ascii ''Tatum'')) = ascii ''tatum''"
  by code_simp+

text \<open>Three rows, the first two with the comparable key \<^verbatim>\<open>oneal jr\<close>.\<close>

theorem salary_lookup_secondary_last_wins_witness:
  "Name (sample_salary ''ONeal Jr'' 6000) = Str (ascii ''ONeal Jr'')
   \<and> secondary_key sample_db (sample_salary ''Tatum'' 9000) = Some (ascii ''tatum'')
   \<and> secondary_key sample_db (sample_salary ''O'Neal Jr.'' 5000) = Some (ascii ''oneal jr'')
   \<and> salary_lookup_secondary sample_db
        [sample_salary ''O'Neal Jr.'' 5000, sample_salary ''ONeal Jr'' 6000,
         sample_salary ''Tatum'' 9000]
        (ascii ''oneal jr'')
      = Some (sample_salary ''ONeal Jr'' 6000)"
proof -
  have n: "Name (sample_salary ''ONeal Jr'' 6000) = Str (ascii ''ONeal Jr'')"
    by (simp add: sample_salary_def)
  have k: "secondary_key sample_db (sample_salary ''Tatum'' 9000) = Some (ascii ''tatum'')"
    "secondary_key sample_db (sample_salary ''O'Neal Jr.'' 5000) = Some (ascii ''oneal jr'')"
    by (simp_all add: secondary_key_def sample_salary_def comparable_oneal)
  have later: "\<forall>later \<in> set [sample_salary ''Tatum'' 9000].
      secondary_key sample_db later \<noteq> Some (comparable_name sample_db (Some (ascii ''ONeal Jr'')))"
    by (simp add: k comparable_oneal) (simp add: ascii_def)
  show ?thesis
    using salary_lookup_secondary_last_wins
      [OF n later, of "[sample_salary ''O'Neal Jr.'' 5000]"] n k
    by (simp add: comparable_oneal)
qed

text \<open>
  First-wins fails: of two rows with the comparable key \<^verbatim>\<open>oneal jr\<close> the index returns
  the second, not the first.
\<close>

theorem salary_lookup_secondary_first_wins_counterexample:
  "secondary_key sample_db (sample_salary ''O'Neal Jr.'' 5000) = Some (ascii ''oneal jr'')
   \<and> secondary_key sample_db (sample_salary ''ONeal Jr'' 6000) = Some (ascii ''oneal jr'')
   \<and> salary_lookup_secondary sample_db
        [sample_salary ''O'Neal Jr.'' 5000, sample_salary ''ONeal Jr'' 6000]
        (ascii ''oneal jr'')
      = Some (sample_salary ''ONeal Jr'' 6000)
   \<and> salary_lookup_secondary sample_db
        [sample_salary ''O'Neal Jr.'' 5000, sample_salary ''ONeal Jr'' 6000]
        (ascii ''oneal jr'')
      \<noteq> Some (sample_salary ''O'Neal Jr.'' 5000)"
proof -
  have k: "secondary_key sample_db (sample_salary ''O'Neal Jr.'' 5000) = Some (ascii ''oneal jr'')"
    "secondary_key sample_db (sample_salary ''ONeal Jr'' 6000) = Some (ascii ''oneal jr'')"
    by (simp_all add: secondary_key_def sample_salary_def comparable_oneal)
  have "salary_lookup_secondary sample_db
        [sample_salary ''O'Neal Jr.'' 5000, sample_salary ''ONeal Jr'' 6000]
        (ascii ''oneal jr'')
      = Some (sample_salary ''ONeal Jr'' 6000)"
    by code_simp
  moreover have "sample_salary ''ONeal Jr'' 6000 \<noteq> sample_salary ''O'Neal Jr.'' 5000"
    by (simp add: sample_salary_def)
  ultimately show ?thesis using k by simp
qed

section \<open>Comparable names\<close>

lemmas name_defs = comparable_name_def normalize_player_name_def nfkd_def
  encode_ascii_ignore_def strip_def isspace_def ascii_space_def lower_def comparable_char_def

lemma comparable_name_chars: "c \<in> set (comparable_name U name) \<Longrightarrow> comparable_char c"
  by (simp add: comparable_name_def)

text \<open>
  C9. \<open>comparable_name\<close> maps the accented spelling \<open>jose_nunez\<close> and the plain
  \<^verbatim>\<open>Jose Nunez\<close> to the same string, and \<^verbatim>\<open>O'Neal Jr.\<close> to \<^verbatim>\<open>oneal jr\<close>; every code point of a comparable name is in
  \<^verbatim>\<open>[a-z0-9 ]\<close>. The assumption is the entry of the Unicode database the first
  example rests on: the decomposition of the accented name.
\<close>

theorem comparable_name_examples:
  assumes "db_nfkd U jose_nunez = jose_nunez_nfkd"
  shows "comparable_name U (Some jose_nunez) = comparable_name U (Some (ascii ''Jose Nunez''))
       \<and> comparable_name U (Some (ascii ''O'Neal Jr.'')) = ascii ''oneal jr''
       \<and> (\<forall>c \<in> set (comparable_name U name).
             (97 \<le> c \<and> c \<le> 122) \<or> (48 \<le> c \<and> c \<le> 57) \<or> c = 32)"
proof -
  have a: "comparable_name U (Some jose_nunez) = ascii ''jose nunez''"
    using assms by (simp add: name_defs jose_nunez_def jose_nunez_nfkd_def ascii_def)
  have b: "comparable_name U (Some (ascii ''Jose Nunez'')) = ascii ''jose nunez''"
    by (simp add: name_defs ascii_def)
  have c: "comparable_name U (Some (ascii ''O'Neal Jr.'')) = ascii ''oneal jr''"
    by (simp add: name_defs ascii_def)
  show ?thesis
    using a b c comparable_name_chars [of _ U name] by (auto simp: comparable_char_def)
qed

text \<open>The sample database decomposes the accented letters as Unicode does.\<close>

theorem comparable_name_examples_witness:
  "db_nfkd sample_db jose_nunez = jose_nunez_nfkd
   \<and> comparable_name sample_db (Some jose_nunez) = ascii ''jose nunez''
   \<and> comparable_name sample_db (Some (ascii ''Jose Nunez'')) = ascii ''jose nunez''
   \<and> comparable_name sample_db (Some (ascii ''O'Neal Jr.'')) = ascii ''oneal jr''"
proof -
  have h: "db_nfkd sample_db jose_nunez = jose_nunez_nfkd"
    by (simp add: sample_db_def sample_decomposition_def jose_nunez_def jose_nunez_nfkd_def)
  have b: "comparable_name sample_db (Some (ascii ''Jose Nunez'')) = ascii ''jose nunez''"
    by code_simp
  show ?thesis
    using comparable_name_examples [OF h] h b by simp
qed

section \<open>Lineup tokenizer\<close>

lemma lineup_loop_no_slot:
  "\<forall>t \<in> set pre. upper U t \<notin> LINEUP_SLOT_SET \<Longrightarrow>
     lineup_loop U st pre = st\<lparr>current_tokens := current_tokens st @ pre\<rparr>"
  by (induction pre arbitrary: st) (simp_all add: lineup_step_def)

lemma lineup_loop_append:
  "lineup_loop U st (xs @ ys) = lineup_loop U (lineup_loop U st xs) ys"
  by (induction xs arbitrary: st) simp_all

lemma lineup_loop_tokens_irrelevant:
  "current_slot st = None \<Longrightarrow>
     flush U (lineup_loop U (st\<lparr>current_tokens := ts\<rparr>) toks) = flush U (lineup_loop U st toks)"
proof (induction toks arbitrary: st ts)
  case Nil
  then show ?case by (simp add: flush_def)
next
  case (Cons t toks)
  show ?case
  proof (cases "upper U t \<in> LINEUP_SLOT_SET")
    case True
    then show ?thesis using Cons.prems by (simp add: lineup_step_def flush_def)
  next
    case False
    then show ?thesis
      using Cons.IH [of "st\<lparr>current_tokens := current_tokens st @ [t]\<rparr>" "ts @ [t]"] Cons.prems
      by (simp add: lineup_step_def)
  qed
qed

text \<open>
  C10. When the token sequence of the input begins with tokens that are not roster-slot
  tokens, \<open>parse_lineup\<close> discards them: the output is the output for the remaining tokens
  alone, so the leading tokens reach no (slot, player) pair. An input with no slot token
  at all yields the empty sequence.
\<close>

theorem parse_lineup_leading_tokens:
  "(tokens_of U s = pre @ rest \<and> (\<forall>t \<in> set pre. upper U t \<notin> LINEUP_SLOT_SET)
      \<longrightarrow> parse_lineup U (Str s) = parse_tokens U rest)
   \<and> ((\<forall>t \<in> set (tokens_of U s). upper U t \<notin> LINEUP_SLOT_SET)
      \<longrightarrow> parse_lineup U (Str s) = [])"
proof -
  have drop: "parse_tokens U (pre' @ rest') = parse_tokens U rest'"
    if "\<forall>t \<in> set pre'. upper U t \<notin> LINEUP_SLOT_SET" for pre' rest'
  proof -
    have "lineup_loop U lineup_start (pre' @ rest')
            = lineup_loop U (lineup_start\<lparr>current_tokens := pre'\<rparr>) rest'"
      using lineup_loop_no_slot [OF that, of lineup_start]
      by (simp add: lineup_loop_append lineup_start_def)
    moreover have "current_slot lineup_start = None"
      by (simp add: lineup_start_def)
    ultimately show ?thesis
      by (simp add: parse_tokens_def lineup_loop_tokens_irrelevant)
  qed
  have empty: "parse_tokens U [] = []"
    by (simp add: parse_tokens_def flush_def lineup_start_def)
  have "parse_lineup U (Str s) = []"
    if "\<forall>t \<in> set (tokens_of U s). upper U t \<notin> LINEUP_SLOT_SET"
    using drop [OF that, of "[]"] empty by (simp add: parse_lineup_def)
  moreover have "parse_lineup U (Str s) = parse_tokens U rest"
    if "tokens_of U s = pre @ rest" "\<forall>t \<in> set pre. upper U t \<notin> LINEUP_SLOT_SET"
    using drop [OF that(2), of rest] that(1) by (simp add: parse_lineup_def)
  ultimately show ?thesis by blast
qed

text \<open>
  Two stray tokens before the first slot, and a string without any slot token. (The
  token \<^verbatim>\<open>C\<close> is itself a slot, so the players are named A, B and D.)
\<close>

theorem parse_lineup_leading_tokens_witness:
  "tokens_of sample_db (ascii ''x y PG A B SG D'')
     = map ascii [''x'', ''y''] @ map ascii [''PG'', ''A'', ''B'', ''SG'', ''D'']
   \<and> upper sample_db (ascii ''x'') \<notin> LINEUP_SLOT_SET
   \<and> upper sample_db (ascii ''y'') \<notin> LINEUP_SLOT_SET
   \<and> parse_lineup sample_db (Str (ascii ''x y PG A B SG D''))
     = [(ascii ''PG'', ascii ''A B''), (ascii ''SG'', ascii ''D'')]
   \<and> tokens_of sample_db (ascii ''no slot here'') = map ascii [''no'', ''slot'', ''here'']
   \<and> parse_lineup sample_db (Str (ascii ''no slot here'')) = []"
proof -
  have t1: "tokens_of sample_db (ascii ''x y PG A B SG D'')
     = map ascii [''x'', ''y''] @ map ascii [''PG'', ''A'', ''B'', ''SG'', ''D'']"
    by code_simp
  have u: "upper sample_db (ascii ''x'') \<notin> LINEUP_SLOT_SET"
    "upper sample_db (ascii ''y'') \<notin> LINEUP_SLOT_SET"
    "upper sample_db (ascii ''no'') \<notin> LINEUP_SLOT_SET"
    "upper sample_db (ascii ''slot'') \<notin> LINEUP_SLOT_SET"
    "upper sample_db (ascii ''here'') \<notin> LINEUP_SLOT_SET"
    by code_simp+
  have p: "parse_tokens sample_db (map ascii [''PG'', ''A'', ''B'', ''SG'', ''D''])
     = [(ascii ''PG'', ascii ''A B''), (ascii ''SG'', ascii ''D'')]"
    by code_simp
  have t2: "tokens_of sample_db (ascii ''no slot here'') = map ascii [''no'', ''slot'', ''here'']"
    by code_simp
  have h1: "\<forall>t \<in> set (map ascii [''x'', ''y'']). upper sample_db t \<notin> LINEUP_SLOT_SET"
    using u by simp
  have h2: "\<forall>t \<in> set (tokens_of sample_db (ascii ''no slot here'')).
              upper sample_db t \<notin> LINEUP_SLOT_SET"
    using u by (simp add: t2)
  show ?thesis
    using parse_lineup_leading_tokens
        [of sample_db "ascii ''x y PG A B SG D''" "map ascii [''x'', ''y'']"
            "map ascii [''PG'', ''A'', ''B'', ''SG'', ''D'']"]
      parse_lineup_leading_tokens [of sample_db "ascii ''no slot here''" "[]" "[]"]
      t1 t2 u p h1 h2
    by simp
qed

section \<open>Duplicate counts\<close>

lemma group_counts_eq:
  "group_counts rows counts k =
     counts k + length (filter (\<lambda>r. er_EntryId r \<noteq> None \<and> er_canonical_lineup_key r = k) rows)"
  by (induction rows arbitrary: counts) auto

lemma transform_count_map:
  "map er_EntryId (transform_count rows) = map er_EntryId rows"
  "map er_canonical_lineup_key (transform_count rows) = map er_canonical_lineup_key rows"
  by (simp_all add: transform_count_def Let_def comp_def)

lemma filter_transform_count:
  "length (filter (\<lambda>r. er_EntryId r \<noteq> None \<and> er_canonical_lineup_key r = k)
             (transform_count rows))
     = length (filter (\<lambda>r. er_EntryId r \<noteq> None \<and> er_canonical_lineup_key r = k) rows)"
  by (simp add: transform_count_def Let_def filter_map comp_def)

lemma transform_count_dupe:
  assumes "e \<in> set (transform_count rows)"
  shows "er_dupe_count e =
     length (filter (\<lambda>r. er_EntryId r \<noteq> None
                          \<and> er_canonical_lineup_key r = er_canonical_lineup_key e)
               (transform_count rows))"
proof -
  from assms obtain r where "r \<in> set rows"
    and e: "e = r\<lparr>er_dupe_count := group_counts rows (\<lambda>k. 0) (er_canonical_lineup_key r)\<rparr>"
    by (auto simp: transform_count_def Let_def)
  have key: "er_canonical_lineup_key e = er_canonical_lineup_key r"
    by (simp add: e)
  have "er_dupe_count e = group_counts rows (\<lambda>k. 0) (er_canonical_lineup_key r)"
    by (simp add: e)
  also have "\<dots> = length (filter (\<lambda>x. er_EntryId x \<noteq> None
                \<and> er_canonical_lineup_key x = er_canonical_lineup_key r) rows)"
    by (subst group_counts_eq) simp
  also have "\<dots> = length (filter (\<lambda>x. er_EntryId x \<noteq> None
                \<and> er_canonical_lineup_key x = er_canonical_lineup_key r) (transform_count rows))"
    by (rule filter_transform_count [symmetric])
  finally show ?thesis by (simp only: key)
qed

lemma drop_duplicates_distinct:
  "distinct (map key (drop_duplicates seen key xs))
   \<and> set (map key (drop_duplicates seen key xs)) \<inter> set seen = {}"
proof (induction xs arbitrary: seen)
  case Nil
  then show ?case by simp
next
  case (Cons x xs)
  show ?case
  proof (cases "key x \<in> set seen")
    case True
    then show ?thesis using Cons.IH [of seen] by simp
  next
    case False
    then show ?thesis using Cons.IH [of "key x # seen"] by auto
  qed
qed

lemma entries_raw_distinct: "distinct (map er_EntryId (entries_raw U standings))"
proof -
  have "er_EntryId \<circ> entry_columns U = EntryId"
    by (simp add: fun_eq_iff entry_columns_def Let_def)
  then show ?thesis
    using drop_duplicates_distinct [of EntryId "[]"]
    by (simp add: entries_raw_def transform_count_map)
qed

lemma dupe_count_counts_ids:
  assumes "e \<in> set (entries_raw U standings)"
  shows "er_dupe_count e
           = length (filter (\<lambda>x. er_EntryId x \<noteq> None
                                  \<and> er_canonical_lineup_key x = er_canonical_lineup_key e)
                       (entries_raw U standings))"
  using assms transform_count_dupe unfolding entries_raw_def by blast

text \<open>
  What line 110 is written for: when every entry row of the sheet carries an \<^verbatim>\<open>EntryId\<close>,
  the duplicate count of an entry is the number of entries with its key, itself included.
\<close>

lemma dupe_count_with_ids:
  assumes ids: "\<forall>x \<in> set (entries_raw U standings). er_EntryId x \<noteq> None"
    and e: "e \<in> set (entries_raw U standings)"
  shows "1 \<le> er_dupe_count e"
    and "er_dupe_count e
           = length (filter (\<lambda>x. er_canonical_lineup_key x = er_canonical_lineup_key e)
                       (entries_raw U standings))"
proof -
  let ?rows = "entries_raw U standings"
  let ?P = "\<lambda>x. er_canonical_lineup_key x = er_canonical_lineup_key e"
  have "filter (\<lambda>x. er_EntryId x \<noteq> None \<and> ?P x) ?rows = filter ?P ?rows"
    using ids by (intro filter_cong) auto
  with dupe_count_counts_ids [OF e]
  show cnt: "er_dupe_count e = length (filter ?P ?rows)" by simp
  have "e \<in> set (filter ?P ?rows)" using e by simp
  then have "filter ?P ?rows \<noteq> []" by (metis empty_iff empty_set)
  then have "1 \<le> length (filter ?P ?rows)" by (cases "filter ?P ?rows") simp_all
  with cnt show "1 \<le> er_dupe_count e" by simp
qed

text \<open>
  C5. After ingestion every entry \<open>e\<close> is to have \<open>dupe_count e \<ge> 1\<close>, equal to the number
  of entries whose \<open>canonical_lineup_key\<close> is that of \<open>e\<close>. The code does not achieve it
  for an entry row whose \<^verbatim>\<open>EntryId\<close> cell is empty: \<^verbatim>\<open>transform("count")\<close> counts the
  identifiers that are present, not the rows. On the sheet \<open>missing_id\<close>, whose two entry
  rows have the lineups \<^verbatim>\<open>PG A\<close> (identifier 1) and \<^verbatim>\<open>PG B\<close> (no identifier), both rows
  are entries after de-duplication, with the keys \<^verbatim>\<open>A\<close> and \<^verbatim>\<open>B\<close>; the second is the
  one entry with the key \<^verbatim>\<open>B\<close>, and its duplicate count is 0.
\<close>

theorem dupe_count_missing_id:
  "map er_EntryId (entries_raw sample_db missing_id) = [Some 1, None]
   \<and> map er_canonical_lineup_key (entries_raw sample_db missing_id) = [ascii ''A'', ascii ''B'']
   \<and> map er_dupe_count (entries_raw sample_db missing_id) = [1, 0]
   \<and> er_dupe_count (entries_raw sample_db missing_id ! 1) = 0
   \<and> length (filter (\<lambda>x. er_canonical_lineup_key x
                             = er_canonical_lineup_key (entries_raw sample_db missing_id ! 1))
               (entries_raw sample_db missing_id)) = 1"
proof -
  have i: "map er_EntryId (entries_raw sample_db missing_id) = [Some 1, None]"
    by code_simp
  have k: "map er_canonical_lineup_key (entries_raw sample_db missing_id)
             = [ascii ''A'', ascii ''B'']"
    by code_simp
  have d: "map er_dupe_count (entries_raw sample_db missing_id) = [1, 0]"
    by code_simp
  have d1: "er_dupe_count (entries_raw sample_db missing_id ! 1) = 0"
    using arg_cong [OF d, of "\<lambda>xs. xs ! 1"] arg_cong [OF d, of length] by (simp add: nth_map)
  have n: "length (filter (\<lambda>x. er_canonical_lineup_key x
                             = er_canonical_lineup_key (entries_raw sample_db missing_id ! 1))
               (entries_raw sample_db missing_id)) = 1"
    by code_simp
  from i k d d1 n show ?thesis by (intro conjI)
qed

section \<open>User exposure\<close>















text \<open>
  The exceptions: no exploded row; an exploded row of a user with a total of 0, as in the
  frame of one entry without identifier.
\<close>

lemma compute_user_exposure_no_rows:
  "compute_user_exposure entries [] field_players = Inl KeyError"
  by (simp add: compute_user_exposure_def)

lemma compute_user_exposure_zero_total:
  assumes "x \<in> set exploded" and "user_lineups entries (x_username x) = Some 0"
  shows "compute_user_exposure entries exploded field_players = Inl TypeError"
proof -
  have "(x_username x, x_player x) \<in> set (exposure_keys exploded)"
    using assms(1) by (simp add: exposure_keys_def)
  then have "list_ex (\<lambda>k. user_lineups entries (fst k) = Some 0) (exposure_keys exploded)"
    unfolding list_ex_iff using assms(2) by force
  moreover have "exploded \<noteq> []" using assms(1) by auto
  ultimately show ?thesis by (simp add: compute_user_exposure_def)
qed

lemma entry_without_id_raises:
  "compute_user_exposure entry_without_id (sample_exploded entry_without_id) sample_field
     = Inl TypeError"
proof -
  have "user_lineups entry_without_id (ascii ''ann'') = Some 0" by code_simp
  moreover have "sample_exploded entry_without_id
                   = [\<lparr>x_entry_id = None, x_username = ascii ''ann'', x_player = ascii ''P'',
                       x_rank = 1, x_points = 0, x_percentile = 0\<rparr>]"
    by code_simp
  ultimately show ?thesis
    using compute_user_exposure_zero_total
      [of "\<lparr>x_entry_id = None, x_username = ascii ''ann'', x_player = ascii ''P'',
             x_rank = 1, x_points = 0, x_percentile = 0\<rparr>"
          "sample_exploded entry_without_id" entry_without_id sample_field]
    by simp
qed















section \<open>Name combos\<close>

lemma length_combinations: "length (combinations xs k) = length xs choose k"
  by (induction xs k rule: combinations.induct) simp_all

lemma combinations_subset: "c \<in> set (combinations xs k) \<Longrightarrow> set c \<subseteq> set xs"
proof (induction xs arbitrary: k c)
  case Nil
  then show ?case by (cases k) simp_all
next
  case (Cons x xs)
  show ?case
  proof (cases k)
    case 0
    with Cons.prems show ?thesis by simp
  next
    case (Suc k')
    with Cons.prems consider c' where "c = x # c'" "c' \<in> set (combinations xs k')"
      | "c \<in> set (combinations xs (Suc k'))"
      by auto
    then show ?thesis
    proof cases
      case 1
      then show ?thesis using Cons.IH [of c' k'] by auto
    next
      case 2
      then show ?thesis using Cons.IH [of c "Suc k'"] by auto
    qed
  qed
qed

lemma distinct_combinations: "distinct xs \<Longrightarrow> distinct (combinations xs k)"
proof (induction xs arbitrary: k)
  case Nil
  then show ?case by (cases k) simp_all
next
  case (Cons x xs)
  show ?case
  proof (cases k)
    case 0
    then show ?thesis by simp
  next
    case (Suc k')
    have d1: "distinct (map ((#) x) (combinations xs k'))"
      using Cons by (simp add: distinct_map)
    have d2: "distinct (combinations xs (Suc k'))"
      using Cons by simp
    have "x \<notin> set c" if "c \<in> set (combinations xs (Suc k'))" for c
      using combinations_subset [OF that] Cons.prems by auto
    then have "set (map ((#) x) (combinations xs k')) \<inter> set (combinations xs (Suc k')) = {}"
      by force
    with d1 d2 show ?thesis by (simp add: Suc)
  qed
qed

lemma fromkeys_set: "set (fromkeys keys xs) = set keys \<union> set xs"
  by (induction xs arbitrary: keys) auto

lemma fromkeys_distinct: "distinct keys \<Longrightarrow> distinct (fromkeys keys xs)"
  by (induction xs arbitrary: keys) auto

lemma length_unique_players:
  "length (fromkeys [] ps) = card (set ps)"
proof -
  have "distinct (fromkeys [] ps)" by (rule fromkeys_distinct) simp
  then have "length (fromkeys [] ps) = card (set (fromkeys [] ps))"
    by (simp add: distinct_card)
  then show ?thesis by (simp add: fromkeys_set)
qed

lemma row_combos_distinct: "distinct (row_combos k row)"
proof -
  have "distinct (fromkeys [] (lineup_players row))" by (rule fromkeys_distinct) simp
  then have "distinct (sort (fromkeys [] (lineup_players row)))" by simp
  then show ?thesis
    by (simp add: row_combos_def Let_def distinct_combinations)
qed

lemma row_combos_length: "length (row_combos k row) \<le> card (set (lineup_players row)) choose k"
  by (simp add: row_combos_def Let_def length_combinations length_unique_players)

lemma ids_of_bucket_append:
  "ids_of (bucket_append row c d) c' = ids_of d c' @ (if c' = c then [entry_id row] else [])"
  by (induction d) (auto simp: ids_of_def bucket_add_def empty_bucket_def)

lemma keys_set_bucket_append:
  "set (map fst (bucket_append row c d)) = insert c (set (map fst d))"
proof (induction d)
  case Nil
  then show ?case by simp
next
  case (Cons p d)
  obtain k' b where p: "p = (k', b)" by (cases p)
  show ?case
  proof (cases "k' = c")
    case True
    then show ?thesis by (simp add: p)
  next
    case False
    then have "set (map fst (bucket_append row c (p # d)))
                 = insert k' (set (map fst (bucket_append row c d)))"
      by (simp add: p)
    also have "\<dots> = insert k' (insert c (set (map fst d)))"
      by (simp only: Cons.IH)
    finally show ?thesis by (auto simp: p)
  qed
qed

lemma keys_bucket_append:
  "distinct (map fst d) \<Longrightarrow> distinct (map fst (bucket_append row c d))"
proof (induction d)
  case Nil
  then show ?case by simp
next
  case (Cons p d)
  obtain k' b where p: "p = (k', b)" by (cases p)
  show ?case
  proof (cases "k' = c")
    case True
    then show ?thesis using Cons.prems by (simp add: p)
  next
    case False
    have "k' \<notin> set (map fst (bucket_append row c d))"
      using Cons.prems False by (simp only: keys_set_bucket_append) (simp add: p)
    then show ?thesis using Cons False by (simp add: p)
  qed
qed

lemma ids_of_fold_append:
  "distinct cs \<Longrightarrow>
     ids_of (fold (bucket_append row) cs d) c' = ids_of d c' @ (if c' \<in> set cs then [entry_id row] else [])"
proof (induction cs arbitrary: d)
  case Nil
  then show ?case by simp
next
  case (Cons c cs)
  then show ?case by (auto simp: ids_of_bucket_append)
qed

lemma keys_fold_append:
  "distinct (map fst d) \<Longrightarrow> distinct (map fst (fold (bucket_append row) cs d))"
  by (induction cs arbitrary: d) (simp_all add: keys_bucket_append)

lemma ids_of_combo_row:
  "ids_of (combo_row k row d) c = ids_of d c @ (if c \<in> set (row_combos k row) then [entry_id row] else [])"
  by (simp add: combo_row_def ids_of_fold_append row_combos_distinct)

lemma keys_combo_row: "distinct (map fst d) \<Longrightarrow> distinct (map fst (combo_row k row d))"
  by (simp add: combo_row_def keys_fold_append)

lemma ids_of_fold_rows:
  "ids_of (fold (combo_row k) es d) c
     = ids_of d c @ map entry_id (filter (\<lambda>e. c \<in> set (row_combos k e)) es)"
  by (induction es arbitrary: d) (simp_all add: ids_of_combo_row)

lemma keys_fold_rows: "distinct (map fst d) \<Longrightarrow> distinct (map fst (fold (combo_row k) es d))"
  by (induction es arbitrary: d) (simp_all add: keys_combo_row)

lemma combo_records_ids:
  assumes "r \<in> set (combo_records es k)"
  shows "entry_ids r = map entry_id (filter (\<lambda>e. players r \<in> set (row_combos k e)) es)"
proof -
  let ?d = "combo_dict_of es k"
  from assms obtain c b where cb: "(c, b) \<in> set ?d" and p: "players r = c" and i: "entry_ids r = b_entry_ids b"
    by (auto simp: combo_records_def combo_dict_to_records_def)
  have "distinct (map fst ?d)"
    unfolding combo_dict_of_def by (rule keys_fold_rows) simp
  with cb have "map_of ?d c = Some b" by simp
  then have "ids_of ?d c = b_entry_ids b" by (simp add: ids_of_def)
  moreover have "ids_of ?d c = map entry_id (filter (\<lambda>e. c \<in> set (row_combos k e)) es)"
  proof -
    have "ids_of [] c = []" by (simp add: ids_of_def)
    then show ?thesis
      unfolding combo_dict_of_def by (simp only: ids_of_fold_rows append_Nil)
  qed
  ultimately show ?thesis using p i by simp
qed

lemma combo_records_keys: "distinct (map players (combo_records es k))"
proof -
  let ?d = "combo_dict_of es k"
  have d: "distinct (map fst ?d)"
    unfolding combo_dict_of_def by (rule keys_fold_rows) simp
  have "map players (combo_records es k)
          = map fst (filter (\<lambda>(cmb, payload). b_entry_ids payload \<noteq> []) ?d)"
    by (simp add: combo_records_def combo_dict_to_records_def comp_def case_prod_unfold)
  moreover have "distinct (map fst (filter (\<lambda>(cmb, payload). b_entry_ids payload \<noteq> []) ?d))"
    using d by (rule distinct_map_filter)
  ultimately show ?thesis by simp
qed

lemma count_ids:
  assumes "distinct (map entry_id es)" and "e \<in> set es"
  shows "count_list (map entry_id (filter P es)) (entry_id e) = (if P e then 1 else 0)"
  using assms
proof (induction es)
  case Nil
  then show ?case by simp
next
  case (Cons x es)
  show ?case
  proof (cases "x = e")
    case True
    have "entry_id e \<notin> set (map entry_id (filter P es))"
      using Cons.prems(1) True by auto
    then have "count_list (map entry_id (filter P es)) (entry_id e) = 0"
      by (simp add: count_list_0_iff)
    then show ?thesis using True by simp
  next
    case False
    then have "e \<in> set es" using Cons.prems by simp
    moreover have "entry_id x \<noteq> entry_id e"
      using Cons.prems(1) \<open>e \<in> set es\<close> by auto
    ultimately show ?thesis using Cons by simp
  qed
qed

text \<open>
  C4. Let the entries have pairwise distinct identifiers. For every entry \<open>e\<close> with \<open>u\<close>
  unique lineup players and every combo size \<open>k\<close>, the combo keys of the records to which
  \<open>e\<close> contributes number at most \<open>u choose k\<close>; the \<open>entry_ids\<close> list of every such
  record contains the identifier of \<open>e\<close> exactly once; an entry with fewer than \<open>k\<close>
  unique players contributes to no record of size \<open>k\<close>. (No key has two records.)
\<close>

theorem combo_records_contribution:
  assumes "distinct (map entry_id es)" and "e \<in> set es"
  shows "card {players r | r. r \<in> set (combo_records es k) \<and> entry_id e \<in> set (entry_ids r)}
           \<le> card (set (lineup_players e)) choose k
     \<and> (\<forall>r \<in> set (combo_records es k).
           entry_id e \<in> set (entry_ids r) \<longrightarrow> count_list (entry_ids r) (entry_id e) = 1)
     \<and> (card (set (lineup_players e)) < k \<longrightarrow>
           (\<forall>r \<in> set (combo_records es k). entry_id e \<notin> set (entry_ids r)))
     \<and> distinct (map players (combo_records es k))"
proof -
  have cnt: "count_list (entry_ids r) (entry_id e) = (if players r \<in> set (row_combos k e) then 1 else 0)"
    if "r \<in> set (combo_records es k)" for r
    using combo_records_ids [OF that] count_ids [OF assms] by simp
  have mem: "players r \<in> set (row_combos k e)"
    if "r \<in> set (combo_records es k)" "entry_id e \<in> set (entry_ids r)" for r
  proof (rule ccontr)
    assume "players r \<notin> set (row_combos k e)"
    then have "count_list (entry_ids r) (entry_id e) = 0" using cnt [OF that(1)] by simp
    then show False using that(2) by (simp add: count_list_0_iff)
  qed
  have "{players r | r. r \<in> set (combo_records es k) \<and> entry_id e \<in> set (entry_ids r)}
          \<subseteq> set (row_combos k e)"
    using mem by auto
  then have "card {players r | r. r \<in> set (combo_records es k) \<and> entry_id e \<in> set (entry_ids r)}
          \<le> card (set (row_combos k e))"
    by (intro card_mono) simp_all
  also have "\<dots> \<le> length (row_combos k e)" by (rule card_length)
  also have "\<dots> \<le> card (set (lineup_players e)) choose k" by (rule row_combos_length)
  finally have a: "card {players r | r. r \<in> set (combo_records es k) \<and> entry_id e \<in> set (entry_ids r)}
           \<le> card (set (lineup_players e)) choose k" .
  have b: "\<forall>r \<in> set (combo_records es k).
           entry_id e \<in> set (entry_ids r) \<longrightarrow> count_list (entry_ids r) (entry_id e) = 1"
    using cnt mem by simp
  have c: "\<forall>r \<in> set (combo_records es k). entry_id e \<notin> set (entry_ids r)"
    if "card (set (lineup_players e)) < k"
  proof -
    have "length (row_combos k e) = 0"
      using row_combos_length [of k e] that by (simp add: binomial_eq_0)
    then have "row_combos k e = []" by simp
    then show ?thesis using mem by fastforce
  qed
  show ?thesis using a b c combo_records_keys by blast
qed

lemma combo_entries_size_2:
  "map players (combo_records combo_entries 2)
     = [map ascii [''A'', ''B''], map ascii [''A'', ''D''], map ascii [''B'', ''D'']]"
  "map entry_ids (combo_records combo_entries 2) = [[Some 1, Some 2], [Some 1], [Some 1]]"
  "map frequency (combo_records combo_entries 2) = [2, 1, 1]"
  by code_simp+

lemma combo_entries_size_3:
  "map players (combo_records combo_entries 3) = [map ascii [''A'', ''B'', ''D'']]"
  "map entry_ids (combo_records combo_entries 3) = [[Some 1]]"
  by code_simp+

lemma combo_entries_players:
  "card (set (lineup_players (combo_entries ! 0))) = 3"
  "card (set (lineup_players (combo_entries ! 1))) = 2"
  "entry_id (combo_entries ! 0) = Some 1"
  "entry_id (combo_entries ! 1) = Some 2"
  by code_simp+

text \<open>
  The first entry names A twice, so it has the three unique players A, B and D and
  contributes to the three pairs; the second has two players and contributes to no triple.
\<close>

theorem combo_records_contribution_witness:
  "distinct (map entry_id combo_entries)
   \<and> combo_entries ! 0 \<in> set combo_entries
   \<and> combo_entries ! 1 \<in> set combo_entries
   \<and> card (set (lineup_players (combo_entries ! 0))) = 3
   \<and> card (set (lineup_players (combo_entries ! 1))) = 2
   \<and> map players (combo_records combo_entries 2)
       = [map ascii [''A'', ''B''], map ascii [''A'', ''D''], map ascii [''B'', ''D'']]
   \<and> map entry_ids (combo_records combo_entries 2) = [[Some 1, Some 2], [Some 1], [Some 1]]
   \<and> map entry_ids (combo_records combo_entries 3) = [[Some 1]]
   \<and> entry_id (combo_entries ! 0) = Some 1
   \<and> entry_id (combo_entries ! 1) = Some 2
   \<and> count_list [Some 1, Some 2] (Some (1::int)) = 1
   \<and> Some (2::int) \<notin> set [Some 1]
   \<and> card {players r | r. r \<in> set (combo_records combo_entries 2)
                          \<and> entry_id (combo_entries ! 0) \<in> set (entry_ids r)} \<le> 3"
proof -
  have d: "distinct (map entry_id combo_entries)"
    by (simp add: combo_entries_def sample_entry_def)
  have m: "combo_entries ! 0 \<in> set combo_entries" "combo_entries ! 1 \<in> set combo_entries"
    by (simp_all add: combo_entries_def)
  have c: "(3::nat) choose 2 = 3" by code_simp
  have "card {players r | r. r \<in> set (combo_records combo_entries 2)
                          \<and> entry_id (combo_entries ! 0) \<in> set (entry_ids r)} \<le> 3"
    using combo_records_contribution [OF d m(1), of 2]
    by (simp only: combo_entries_players c)
  then show ?thesis
    using d m combo_entries_size_2 combo_entries_size_3 combo_entries_players
      combo_records_contribution [OF d m(2), of 3]
    by simp
qed

section \<open>Entry name parser\<close>

lemma punct_classes:
  "\<not> isspace U 40" "\<not> isspace U 41" "\<not> isspace U 47"
  "\<not> isdigit U 40" "\<not> isdigit U 41" "\<not> isdigit U 47" "isspace U 10"
  by (simp_all add: isspace_def ascii_space_def isdigit_def decimal_def)

lemma dropWhile_run: "\<forall>c \<in> set w. P c \<Longrightarrow> \<not> P x \<Longrightarrow> dropWhile P (w @ x # r) = x # r"
  by (simp add: dropWhile_append2)

lemma takeWhile_run: "\<forall>c \<in> set w. P c \<Longrightarrow> \<not> P x \<Longrightarrow> takeWhile P (w @ x # r) = w"
  by (simp add: takeWhile_append2)

lemma dropWhile_split:
  "dropWhile P t = r \<Longrightarrow> \<exists>w. t = w @ r \<and> (\<forall>c \<in> set w. P c)"
  by (metis takeWhile_dropWhile_id set_takeWhileD)

lemma dropWhile_rest:
  "\<exists>w. t = w @ dropWhile P t \<and> (\<forall>c \<in> set w. P c)"
  by (rule dropWhile_split) simp

lemma last_occurrence_unique:
  "xs @ a # ys = xs' @ a # ys' \<Longrightarrow> a \<notin> set ys \<Longrightarrow> a \<notin> set ys' \<Longrightarrow> xs = xs'"
proof (induction xs arbitrary: xs')
  case Nil
  then show ?case by (cases xs') auto
next
  case (Cons x xs)
  show ?case
  proof (cases xs')
    case Nil
    with Cons.prems show ?thesis by auto
  next
    case (Cons x' zs)
    with Cons.prems Cons.IH [of zs] show ?thesis by auto
  qed
qed

lemma match_close_shape:
  "match_close t \<Longrightarrow> t \<noteq> [] \<and> 40 \<notin> set t \<and> (last t = 41 \<or> last t = 10)"
  by (cases t) (auto simp: match_close_def at_dollar_def)

lemma match_max_shape:
  assumes "match_max U t = Some mx"
  shows "t \<noteq> [] \<and> 40 \<notin> set t \<and> (last t = 41 \<or> last t = 10)"
proof (cases "match_close t")
  case True
  then show ?thesis by (rule match_close_shape)
next
  case False
  with assms obtain t1 where d: "dropWhile (isspace U) t = 47 # t1"
    and c: "match_close (dropWhile (isdigit U) (dropWhile (isspace U) t1))"
    by (auto simp: match_max_def Let_def split: list.splits if_splits)
  from dropWhile_split [OF d] obtain w where w: "t = w @ 47 # t1" "\<forall>c \<in> set w. isspace U c"
    by blast
  from dropWhile_rest [of t1 "isspace U"] obtain w1
    where w1: "t1 = w1 @ dropWhile (isspace U) t1" "\<forall>c \<in> set w1. isspace U c"
    by blast
  from dropWhile_rest [of "dropWhile (isspace U) t1" "isdigit U"] obtain ds
    where ds: "dropWhile (isspace U) t1 = ds @ dropWhile (isdigit U) (dropWhile (isspace U) t1)"
      "\<forall>c \<in> set ds. isdigit U c"
    by blast
  define t3 where "t3 = dropWhile (isdigit U) (dropWhile (isspace U) t1)"
  from match_close_shape [OF c] have s3: "t3 \<noteq> []" "40 \<notin> set t3" "last t3 = 41 \<or> last t3 = 10"
    by (simp_all add: t3_def)
  have t: "t = w @ 47 # w1 @ ds @ t3"
    using w(1) w1(1) ds(1) by (simp add: t3_def)
  have "40 \<notin> set w" "40 \<notin> set w1" "40 \<notin> set ds"
    using w(2) w1(2) ds(2) punct_classes(1,4) by blast+
  then have "40 \<notin> set t" using s3 by (simp add: t)
  moreover have "last t = last t3" using s3 by (simp add: t)
  ultimately show ?thesis using s3 by (simp add: t)
qed

lemma match_tail_shape:
  assumes "match_tail U t = Some g"
  shows "at_dollar t \<or>
     (\<exists>w t1. t = w @ 40 # t1 \<and> (\<forall>c \<in> set w. isspace U c) \<and> 40 \<notin> set t1
              \<and> (last t = 41 \<or> last t = 10))"
proof (cases "at_dollar t")
  case True
  then show ?thesis by simp
next
  case False
  with assms obtain t1 mx where d: "dropWhile (isspace U) t = 40 # t1"
    and m: "match_max U (dropWhile (isdigit U) t1) = Some mx"
    by (auto simp: match_tail_def Let_def split: list.splits if_splits option.splits)
  define t2 where "t2 = dropWhile (isdigit U) t1"
  from match_max_shape [OF m] have s: "t2 \<noteq> []" "40 \<notin> set t2" "last t2 = 41 \<or> last t2 = 10"
    by (simp_all add: t2_def)
  from dropWhile_rest [of t1 "isdigit U"] obtain ds
    where ds: "t1 = ds @ t2" "\<forall>c \<in> set ds. isdigit U c"
    unfolding t2_def by blast
  from dropWhile_split [OF d] obtain w where w: "t = w @ 40 # t1" "\<forall>c \<in> set w. isspace U c"
    by blast
  have "40 \<notin> set ds" using ds(2) punct_classes(4) by blast
  then have n: "40 \<notin> set t1" using s by (simp add: ds(1))
  have "last t = last t2" using s by (simp add: w(1) ds(1))
  with w n s show ?thesis by metis
qed


lemma match_max_close: "match_max U [41] = Some None"
  by (simp add: match_max_def match_close_def at_dollar_def punct_classes)

lemma match_max_slash:
  assumes "spaces U ws1" "spaces U ws2" "digits U ds'" "classes_disjoint U"
  shows "match_max U (ws1 @ 47 # ws2 @ ds' @ [41]) = Some (Some ds')"
proof -
  have a: "dropWhile (isspace U) (ws1 @ 47 # ws2 @ ds' @ [41]) = 47 # ws2 @ ds' @ [41]"
    using assms(1) by (intro dropWhile_run) (simp_all add: spaces_def punct_classes)
  obtain d0 dr where ds': "ds' = d0 # dr" using assms(3) by (cases ds') (auto simp: digits_def)
  have nd: "\<not> isspace U d0"
    using assms(3,4) by (simp add: ds' digits_def classes_disjoint_def)
  have b: "dropWhile (isspace U) (ws2 @ ds' @ [41]) = ds' @ [41]"
    unfolding ds' using assms(2) nd by (simp add: dropWhile_run spaces_def)
  have c: "takeWhile (isdigit U) (ds' @ [41]) = ds'" "dropWhile (isdigit U) (ds' @ [41]) = [41]"
    using assms(3) by (simp_all add: takeWhile_run dropWhile_run digits_def punct_classes)
  show ?thesis
    using assms(3) by (simp add: match_max_def Let_def a b c match_close_def at_dollar_def digits_def)
qed

lemma match_tail_group:
  assumes "spaces U ws" "digits U ds" "\<not> isdigit U x" "match_max U (x # rest) = Some mx"
  shows "match_tail U (ws @ 40 # ds @ x # rest) = Some (Some ds, mx)"
proof -
  have a: "dropWhile (isspace U) (ws @ 40 # ds @ x # rest) = 40 # ds @ x # rest"
    using assms(1) by (intro dropWhile_run) (simp_all add: spaces_def punct_classes)
  have c: "takeWhile (isdigit U) (ds @ x # rest) = ds" "dropWhile (isdigit U) (ds @ x # rest) = x # rest"
    using assms(2,3) by (simp_all add: takeWhile_run dropWhile_run digits_def)
  show ?thesis
    using assms(2,4) by (simp add: match_tail_def Let_def a c digits_def)
qed

lemma match_tail_used:
  assumes "spaces U ws" "digits U ds"
  shows "match_tail U (ws @ 40 # ds @ [41]) = Some (Some ds, None)"
  using match_tail_group [OF assms punct_classes(5) match_max_close] .

lemma match_tail_used_max:
  assumes "spaces U ws" "digits U ds" "spaces U ws1" "spaces U ws2" "digits U ds'"
    "classes_disjoint U"
  shows "match_tail U (ws @ 40 # ds @ ws1 @ 47 # ws2 @ ds' @ [41]) = Some (Some ds, Some ds')"
proof (cases ws1)
  case Nil
  show ?thesis
    using match_tail_group [OF assms(1,2) punct_classes(6), of "ws2 @ ds' @ [41]" "Some ds'"]
      match_max_slash [OF _ assms(4,5,6), of "[]"]
    by (simp add: Nil spaces_def)
next
  case (Cons x r)
  have "isspace U x" using assms(3) by (simp add: Cons spaces_def)
  then have nd: "\<not> isdigit U x" using assms(6) by (auto simp: classes_disjoint_def)
  show ?thesis
    using match_tail_group [OF assms(1,2) nd, of "r @ 47 # ws2 @ ds' @ [41]" "Some ds'"]
      match_max_slash [OF assms(3,4,5,6)]
    by (simp add: Cons)
qed

lemma strip_id:
  assumes "s \<noteq> []" "\<not> isspace U (hd s)" "\<not> isspace U (last s)"
  shows "strip U s = s"
proof -
  obtain x xs where n: "s = x # xs" using assms(1) by (cases s) auto
  have a: "dropWhile (isspace U) s = s"
    using assms(2) by (simp add: n)
  obtain y ys where r: "rev s = y # ys" using n by (cases "rev s") auto
  have "y = last s" using r n by (metis hd_rev list.sel(1) list.distinct(1))
  then have "dropWhile (isspace U) (rev s) = rev s"
    using assms(3) by (simp add: r)
  with a show ?thesis by (simp add: strip_def)
qed

lemma strip_surrounded:
  assumes "spaces U sp1" "spaces U sp2" "s \<noteq> []" "\<not> isspace U (hd s)" "\<not> isspace U (last s)"
  shows "strip U (sp1 @ s @ sp2) = s"
proof -
  obtain x xs where n: "s = x # xs" using assms(3) by (cases s) auto
  have a: "dropWhile (isspace U) (sp1 @ s @ sp2) = s @ sp2"
    using assms(1,4) by (simp add: n dropWhile_run spaces_def)
  obtain y ys where r: "rev s = y # ys" using n by (cases "rev s") auto
  have "y = last s" using r n by (metis hd_rev list.sel(1) list.distinct(1))
  then have "dropWhile (isspace U) (rev sp2 @ rev s) = rev s"
    using assms(2,5) by (simp add: r dropWhile_run spaces_def)
  then show ?thesis by (simp add: strip_def a)
qed

lemma scan_anchored:
  "scan_username U a rest = Some m \<Longrightarrow>
     \<exists>b tail. rest = b @ tail \<and> m_username m = a @ b
                \<and> match_tail U tail = Some (m_used m, m_max m)"
proof (induction rest arbitrary: a)
  case Nil
  then show ?case by (auto split: option.splits)
next
  case (Cons c cs)
  show ?case
  proof (cases "match_tail U (c # cs)")
    case (Some g)
    with Cons.prems have "m_username m = a" "match_tail U (c # cs) = Some (m_used m, m_max m)"
      by (auto split: prod.splits)
    then show ?thesis by (intro exI [of _ "[]"] exI [of _ "c # cs"]) simp
  next
    case None
    with Cons.prems have "scan_username U (a @ [c]) cs = Some m"
      by (simp split: if_splits)
    from Cons.IH [OF this] obtain b tail where "cs = b @ tail" "m_username m = (a @ [c]) @ b"
      "match_tail U tail = Some (m_used m, m_max m)"
      by blast
    then show ?thesis by (intro exI [of _ "c # b"] exI [of _ tail]) simp
  qed
qed

lemma pattern_anchored:
  assumes "ENTRY_PATTERN_match U t = Some m"
  shows "\<exists>tail. t = m_username m @ tail \<and> m_username m \<noteq> []
                  \<and> match_tail U tail = Some (m_used m, m_max m)"
proof -
  from assms obtain c cs where t: "t = c # cs" and s: "scan_username U [c] cs = Some m"
    by (cases t) (auto simp: ENTRY_PATTERN_match_def split: if_splits)
  from scan_anchored [OF s] show ?thesis by (auto simp: t)
qed

lemma scan_reaches:
  assumes "10 \<notin> set b" and "match_tail U tail = Some (used, mx)"
    and "\<And>p b'. b = p @ b' \<Longrightarrow> b' \<noteq> [] \<Longrightarrow> match_tail U (b' @ tail) = None"
  shows "scan_username U a (b @ tail) = Some \<lparr>m_username = a @ b, m_used = used, m_max = mx\<rparr>"
  using assms
proof (induction b arbitrary: a)
  case Nil
  then show ?case by (cases tail) simp_all
next
  case (Cons c b)
  have none: "match_tail U (c # b @ tail) = None"
    using Cons.prems(3) [of "[]" "c # b"] by simp
  have c: "c \<noteq> 10" using Cons.prems(1) by auto
  have "scan_username U (a @ [c]) (b @ tail)
          = Some \<lparr>m_username = (a @ [c]) @ b, m_used = used, m_max = mx\<rparr>"
  proof (rule Cons.IH)
    show "10 \<notin> set b" using Cons.prems(1) by simp
    show "match_tail U tail = Some (used, mx)" by (rule Cons.prems(2))
    show "match_tail U (b' @ tail) = None" if "b = p @ b'" "b' \<noteq> []" for p b'
      using Cons.prems(3) [of "c # p" b'] that by simp
  qed
  then show ?case using none c by simp
qed

lemma pattern_reaches:
  assumes "name \<noteq> []" "10 \<notin> set name" and "match_tail U tail = Some (used, mx)"
    and "\<And>p b'. p \<noteq> [] \<Longrightarrow> name = p @ b' \<Longrightarrow> b' \<noteq> [] \<Longrightarrow> match_tail U (b' @ tail) = None"
  shows "ENTRY_PATTERN_match U (name @ tail)
           = Some \<lparr>m_username = name, m_used = used, m_max = mx\<rparr>"
proof -
  obtain c b where n: "name = c # b" using assms(1) by (cases name) auto
  have "scan_username U [c] (b @ tail) = Some \<lparr>m_username = [c] @ b, m_used = used, m_max = mx\<rparr>"
  proof (rule scan_reaches)
    show "10 \<notin> set b" using assms(2) by (simp add: n)
    show "match_tail U tail = Some (used, mx)" by (rule assms(3))
    show "match_tail U (b' @ tail) = None" if "b = p @ b'" "b' \<noteq> []" for p b'
      using assms(4) [of "c # p" b'] that by (simp add: n)
  qed
  then show ?thesis using assms(2) by (simp add: ENTRY_PATTERN_match_def n)
qed

lemma no_earlier_group:
  assumes "plain_name U name" "name = p @ b'" "b' \<noteq> []"
    and "spaces U ws" "40 \<notin> set rest"
  shows "match_tail U (b' @ ws @ 40 # rest) = None"
proof (rule ccontr)
  assume "match_tail U (b' @ ws @ 40 # rest) \<noteq> None"
  then obtain g where g: "match_tail U (b' @ ws @ 40 # rest) = Some g" by auto
  have "\<not> at_dollar (b' @ ws @ 40 # rest)"
    using assms(3) by (cases b') (auto simp: at_dollar_def)
  with match_tail_shape [OF g] obtain w t1
    where w: "b' @ ws @ 40 # rest = w @ 40 # t1" "\<forall>c \<in> set w. isspace U c" "40 \<notin> set t1"
    by blast
  have "(b' @ ws) @ 40 # rest = w @ 40 # t1" using w(1) by simp
  from last_occurrence_unique [OF this assms(5) w(3)] have "w = b' @ ws" by simp
  then have "isspace U (last b')" using w(2) assms(3) by simp
  moreover have "last b' = last name" using assms(2,3) by simp
  ultimately show False using assms(1) by (simp add: plain_name_def)
qed

lemma no_group_in_name:
  assumes "plain_name U name" "last name \<noteq> 41" "name = p @ b'" "b' \<noteq> []"
  shows "match_tail U b' = None"
proof (rule ccontr)
  assume "match_tail U b' \<noteq> None"
  then obtain g where g: "match_tail U b' = Some g" by auto
  have l: "last b' = last name" using assms(3,4) by simp
  have "10 \<notin> set b'" using assms(1,3) by (simp add: plain_name_def)
  then have n10: "last b' \<noteq> 10" using assms(4) last_in_set by metis
  have "\<not> at_dollar b'" using assms(4) \<open>10 \<notin> set b'\<close> by (auto simp: at_dollar_def)
  with match_tail_shape [OF g] have "last b' = 41 \<or> last b' = 10" by blast
  then show False using l n10 assms(2) by simp
qed


lemma parse_entry_name_matched:
  assumes "ENTRY_PATTERN_match U (strip U s) = Some \<lparr>m_username = name, m_used = used, m_max = mx\<rparr>"
  shows "parse_entry_name U (Str s) =
     \<lparr>username = strip U name,
      entries_used = (case used of None \<Rightarrow> 1 | Some u \<Rightarrow> if u = [] then 1 else int_of_digits U u),
      entries_max = (case mx of
                       None \<Rightarrow> max (case used of None \<Rightarrow> 1
                                        | Some u \<Rightarrow> if u = [] then 1 else int_of_digits U u) 1
                     | Some x \<Rightarrow>
                         if x = [] then max (case used of None \<Rightarrow> 1
                                             | Some u \<Rightarrow> if u = [] then 1 else int_of_digits U u) 1
                         else int_of_digits U x)\<rparr>"
  using assms by (simp add: parse_entry_name_def Let_def)

lemma plain_name_with_tail:
  assumes "plain_name U name" "tail = [] \<or> last tail = 41"
  shows "strip U (name @ tail) = name @ tail"
proof (rule strip_id)
  show "name @ tail \<noteq> []" using assms(1) by (simp add: plain_name_def)
  show "\<not> isspace U (hd (name @ tail))" using assms(1) by (simp add: plain_name_def)
  show "\<not> isspace U (last (name @ tail))"
    using assms by (cases "tail = []") (auto simp: plain_name_def punct_classes)
qed

text \<open>
  C8. \<open>parse_entry_name\<close> recognizes \<^verbatim>\<open>NAME\<close>, \<^verbatim>\<open>NAME (USED)\<close> and
  \<^verbatim>\<open>NAME (USED/MAX)\<close>, anchored to the full stripped string: a match splits the whole
  string into the user name and a tail that the optional group and \<^verbatim>\<open>$\<close> match. When
  \<^verbatim>\<open>used\<close> is missing \<open>entries_used\<close> is 1; when \<^verbatim>\<open>max\<close> is missing \<open>entries_max\<close> is
  \<open>max used 1\<close>; every input that is not a string yields the empty user name with 1 and 1.
\<close>

theorem parse_entry_name_forms:
  "((\<nexists>s. v = Str s) \<longrightarrow>
       parse_entry_name U v = \<lparr>username = [], entries_used = 1, entries_max = 1\<rparr>)
   \<and> (plain_name U name \<and> last name \<noteq> 41 \<longrightarrow>
       parse_entry_name U (Str name) = \<lparr>username = name, entries_used = 1, entries_max = 1\<rparr>)
   \<and> (plain_name U name \<and> spaces U ws \<and> digits U ds \<longrightarrow>
       parse_entry_name U (Str (name @ ws @ [40] @ ds @ [41]))
         = \<lparr>username = name, entries_used = int_of_digits U ds,
            entries_max = max (int_of_digits U ds) 1\<rparr>)
   \<and> (plain_name U name \<and> spaces U ws \<and> digits U ds \<and> spaces U ws1 \<and> spaces U ws2
        \<and> digits U ds' \<and> classes_disjoint U \<longrightarrow>
       parse_entry_name U (Str (name @ ws @ [40] @ ds @ ws1 @ [47] @ ws2 @ ds' @ [41]))
         = \<lparr>username = name, entries_used = int_of_digits U ds,
            entries_max = int_of_digits U ds'\<rparr>)
   \<and> (spaces U sp1 \<and> spaces U sp2 \<and> t \<noteq> [] \<and> \<not> isspace U (hd t) \<and> \<not> isspace U (last t) \<longrightarrow>
       parse_entry_name U (Str (sp1 @ t @ sp2)) = parse_entry_name U (Str t))
   \<and> (ENTRY_PATTERN_match U (strip U s) = None \<longrightarrow>
       parse_entry_name U (Str s) = \<lparr>username = strip U s, entries_used = 1, entries_max = 1\<rparr>)
   \<and> (ENTRY_PATTERN_match U (strip U s) = Some m \<longrightarrow>
         (m_used m = None \<longrightarrow> entries_used (parse_entry_name U (Str s)) = 1)
       \<and> (m_max m = None \<longrightarrow>
            entries_max (parse_entry_name U (Str s))
              = max (entries_used (parse_entry_name U (Str s))) 1)
       \<and> (\<exists>tail. strip U s = m_username m @ tail
                   \<and> match_tail U tail = Some (m_used m, m_max m)))"
proof -
  have non_string: "parse_entry_name U v = \<lparr>username = [], entries_used = 1, entries_max = 1\<rparr>"
    if "\<nexists>s. v = Str s"
    using that by (cases v) (simp_all add: parse_entry_name_def)
  have name_only: "parse_entry_name U (Str name)
      = \<lparr>username = name, entries_used = 1, entries_max = 1\<rparr>"
    if p: "plain_name U name" and l: "last name \<noteq> 41"
  proof -
    have t: "match_tail U [] = Some (None, None)"
      by (simp add: match_tail_def at_dollar_def)
    have "ENTRY_PATTERN_match U (name @ [])
            = Some \<lparr>m_username = name, m_used = None, m_max = None\<rparr>"
      using p t no_group_in_name [OF p l]
      by (intro pattern_reaches) (simp_all add: plain_name_def)
    then show ?thesis
      using parse_entry_name_matched [of U name name None None] strip_id [of name U] p
      by (simp add: plain_name_def)
  qed
  have with_used: "parse_entry_name U (Str (name @ ws @ [40] @ ds @ [41]))
         = \<lparr>username = name, entries_used = int_of_digits U ds,
            entries_max = max (int_of_digits U ds) 1\<rparr>"
    if p: "plain_name U name" and w: "spaces U ws" and d: "digits U ds"
  proof -
    have n40: "40 \<notin> set (ds @ [41])"
      using d punct_classes(4) by (auto simp: digits_def)
    have "ENTRY_PATTERN_match U (name @ ws @ 40 # ds @ [41])
            = Some \<lparr>m_username = name, m_used = Some ds, m_max = None\<rparr>"
      using p match_tail_used [OF w d] no_earlier_group [OF p _ _ w n40]
      by (intro pattern_reaches) (simp_all add: plain_name_def)
    moreover have "strip U (name @ ws @ 40 # ds @ [41]) = name @ ws @ 40 # ds @ [41]"
      using plain_name_with_tail [OF p, of "ws @ 40 # ds @ [41]"] by simp
    ultimately show ?thesis
      using parse_entry_name_matched [of U "name @ ws @ 40 # ds @ [41]" name "Some ds" None]
        strip_id [of name U] p d
      by (simp add: plain_name_def digits_def)
  qed
  have with_max: "parse_entry_name U (Str (name @ ws @ [40] @ ds @ ws1 @ [47] @ ws2 @ ds' @ [41]))
         = \<lparr>username = name, entries_used = int_of_digits U ds,
            entries_max = int_of_digits U ds'\<rparr>"
    if p: "plain_name U name" and w: "spaces U ws" and d: "digits U ds"
      and w1: "spaces U ws1" and w2: "spaces U ws2" and d': "digits U ds'"
      and dis: "classes_disjoint U"
  proof -
    have n40: "40 \<notin> set (ds @ ws1 @ 47 # ws2 @ ds' @ [41])"
      using d d' w1 w2 punct_classes(1,4) by (auto simp: digits_def spaces_def)
    have "ENTRY_PATTERN_match U (name @ ws @ 40 # ds @ ws1 @ 47 # ws2 @ ds' @ [41])
            = Some \<lparr>m_username = name, m_used = Some ds, m_max = Some ds'\<rparr>"
      using p match_tail_used_max [OF w d w1 w2 d' dis] no_earlier_group [OF p _ _ w n40]
      by (intro pattern_reaches) (simp_all add: plain_name_def)
    moreover have "strip U (name @ ws @ 40 # ds @ ws1 @ 47 # ws2 @ ds' @ [41])
                     = name @ ws @ 40 # ds @ ws1 @ 47 # ws2 @ ds' @ [41]"
      using plain_name_with_tail [OF p, of "ws @ 40 # ds @ ws1 @ 47 # ws2 @ ds' @ [41]"] by simp
    ultimately show ?thesis
      using parse_entry_name_matched
          [of U "name @ ws @ 40 # ds @ ws1 @ 47 # ws2 @ ds' @ [41]" name "Some ds" "Some ds'"]
        strip_id [of name U] p d d'
      by (simp add: plain_name_def digits_def)
  qed
  have surrounded: "parse_entry_name U (Str (sp1 @ t @ sp2)) = parse_entry_name U (Str t)"
    if "spaces U sp1" "spaces U sp2" "t \<noteq> []" "\<not> isspace U (hd t)" "\<not> isspace U (last t)"
    using strip_surrounded [OF that] strip_id [OF that(3,4,5)]
    by (simp add: parse_entry_name_def)
  have unmatched: "parse_entry_name U (Str s)
      = \<lparr>username = strip U s, entries_used = 1, entries_max = 1\<rparr>"
    if "ENTRY_PATTERN_match U (strip U s) = None"
    using that by (simp add: parse_entry_name_def Let_def)
  have matched: "(m_used m = None \<longrightarrow> entries_used (parse_entry_name U (Str s)) = 1)
       \<and> (m_max m = None \<longrightarrow>
            entries_max (parse_entry_name U (Str s))
              = max (entries_used (parse_entry_name U (Str s))) 1)
       \<and> (\<exists>tail. strip U s = m_username m @ tail
                   \<and> match_tail U tail = Some (m_used m, m_max m))"
    if "ENTRY_PATTERN_match U (strip U s) = Some m"
    using that pattern_anchored [OF that] by (auto simp: parse_entry_name_def Let_def)
  show ?thesis
    using non_string name_only with_used with_max surrounded unmatched matched
    by blast
qed


lemma sample_db_disjoint: "classes_disjoint sample_db"
  by (auto simp: classes_disjoint_def isdigit_def decimal_def isspace_def ascii_space_def
      sample_db_def split: if_splits)

lemma sample_name_classes:
  "plain_name sample_db (ascii ''ann'')" "last (ascii ''ann'') \<noteq> 41"
  "spaces sample_db (ascii '' '')" "spaces sample_db []" "spaces sample_db [32, 10]"
  "digits sample_db (ascii ''3'')" "digits sample_db (ascii ''150'')"
  "ascii ''ann (3)'' \<noteq> []" "\<not> isspace sample_db (hd (ascii ''ann (3)''))"
  "\<not> isspace sample_db (last (ascii ''ann (3)''))"
  by code_simp+

lemma sample_name_values:
  "int_of_digits sample_db (ascii ''3'') = 3" "int_of_digits sample_db (ascii ''150'') = 150"
  "ascii ''ann'' @ ascii '' '' @ [40] @ ascii ''3'' @ [41] = ascii ''ann (3)''"
  "ascii ''ann'' @ ascii '' '' @ [40] @ ascii ''3'' @ [] @ [47] @ [] @ ascii ''150'' @ [41]
     = ascii ''ann (3/150)''"
  "strip sample_db (ascii ''ann (0)'') = ascii ''ann (0)''"
  "strip sample_db (ascii ''(3'') = ascii ''(3''"
  "ENTRY_PATTERN_match sample_db (ascii ''ann (0)'')
     = Some \<lparr>m_username = ascii ''ann'', m_used = Some (ascii ''0''), m_max = None\<rparr>"
  "ENTRY_PATTERN_match sample_db (ascii ''(3'')
     = Some \<lparr>m_username = ascii ''(3'', m_used = None, m_max = None\<rparr>"
  "ENTRY_PATTERN_match sample_db (strip sample_db [10]) = None"
  "strip sample_db [10] = []"
  "parse_entry_name sample_db (Str (ascii ''ann (0)''))
     = \<lparr>username = ascii ''ann'', entries_used = 0, entries_max = 1\<rparr>"
  by code_simp+

text \<open>
  The labels \<^verbatim>\<open>ann\<close>, \<^verbatim>\<open>ann (3)\<close>, \<^verbatim>\<open>ann (3/150)\<close>, the second one followed by white
  space, a lone newline, \<^verbatim>\<open>ann (0)\<close>, an unclosed parenthesis, and two cells that are not
  strings.
\<close>

theorem parse_entry_name_forms_witness:
  "parse_entry_name sample_db Missing = \<lparr>username = [], entries_used = 1, entries_max = 1\<rparr>
   \<and> parse_entry_name sample_db (Num 7) = \<lparr>username = [], entries_used = 1, entries_max = 1\<rparr>
   \<and> plain_name sample_db (ascii ''ann'') \<and> spaces sample_db (ascii '' '')
   \<and> digits sample_db (ascii ''3'') \<and> digits sample_db (ascii ''150'')
   \<and> classes_disjoint sample_db
   \<and> parse_entry_name sample_db (Str (ascii ''ann''))
       = \<lparr>username = ascii ''ann'', entries_used = 1, entries_max = 1\<rparr>
   \<and> parse_entry_name sample_db (Str (ascii ''ann (3)''))
       = \<lparr>username = ascii ''ann'', entries_used = 3, entries_max = 3\<rparr>
   \<and> parse_entry_name sample_db (Str (ascii ''ann (3/150)''))
       = \<lparr>username = ascii ''ann'', entries_used = 3, entries_max = 150\<rparr>
   \<and> parse_entry_name sample_db (Str ([] @ ascii ''ann (3)'' @ [32, 10]))
       = \<lparr>username = ascii ''ann'', entries_used = 3, entries_max = 3\<rparr>
   \<and> parse_entry_name sample_db (Str [10])
       = \<lparr>username = [], entries_used = 1, entries_max = 1\<rparr>
   \<and> parse_entry_name sample_db (Str (ascii ''ann (0)''))
       = \<lparr>username = ascii ''ann'', entries_used = 0, entries_max = 1\<rparr>
   \<and> entries_used (parse_entry_name sample_db (Str (ascii ''(3''))) = 1"
  using
    parse_entry_name_forms [where U = sample_db and v = Missing and name = "ascii ''ann''"
      and ws = "ascii '' ''" and ds = "ascii ''3''" and ?ws1.0 = "[]" and ?ws2.0 = "[]"
      and ds' = "ascii ''150''" and ?sp1.0 = "[]" and t = "ascii ''ann (3)''"
      and ?sp2.0 = "[32, 10]" and s = "[10]"]
    parse_entry_name_forms [where U = sample_db and v = "Num 7" and s = "ascii ''ann (0)''"
      and m = "\<lparr>m_username = ascii ''ann'', m_used = Some (ascii ''0''), m_max = None\<rparr>"]
    parse_entry_name_forms [where U = sample_db and s = "ascii ''(3''"
      and m = "\<lparr>m_username = ascii ''(3'', m_used = None, m_max = None\<rparr>"]
    sample_db_disjoint sample_name_classes sample_name_values
  by simp

end
